theory Spec2Isabelle
  imports Main "HOL-Library.AList" "HOL-Library.Finite_Map" "HOL-Library.List_Lexorder"
    "HOL-Library.Multiset"
begin

section \<open>Strings and the library functions the script calls\<close>

text \<open>
  A Python \<open>str\<close> is a sequence of Unicode code points, so a string is a list of
  code points (natural numbers), not a list of bytes. \<open>u\<close> turns an ASCII literal
  of the source into such a string. The order on strings (\<open>sorted\<close> in the source)
  is the lexicographic order on code points, which is the order that
  \<open>List_Lexorder\<close> gives to lists.
\<close>

type_synonym ustring = "nat list"

definition u :: "string \<Rightarrow> ustring" where
  "u s = map of_char s"

definition LF :: nat where
  "LF = 10"

text \<open>
  \<open>str.isspace\<close> for one code point: the code points that CPython treats as
  whitespace (bidirectional type WS, B or S, or category Zs).
\<close>

definition isspace :: "nat \<Rightarrow> bool" where
  "isspace c =
     ((9 \<le> c \<and> c \<le> 13) \<or> (28 \<le> c \<and> c \<le> 32) \<or> c = 133 \<or> c = 160 \<or> c = 5760
      \<or> (8192 \<le> c \<and> c \<le> 8202) \<or> c = 8232 \<or> c = 8233 \<or> c = 8239 \<or> c = 8287
      \<or> c = 12288)"

text \<open>\<open>str.strip()\<close> without argument: whitespace removed at both ends.\<close>

definition strip :: "ustring \<Rightarrow> ustring" where
  "strip s = rev (dropWhile isspace (rev (dropWhile isspace s)))"

text \<open>
  \<open>str(counter)\<close> for a non-negative integer: its decimal digits, most significant
  first, without leading zeros.
\<close>

fun str_nat :: "nat \<Rightarrow> ustring" where
  "str_nat n = (if n < 10 then [48 + n] else str_nat (n div 10) @ [48 + n mod 10])"

declare str_nat.simps [simp del]

text \<open>The value that a string of decimal digits denotes (used to invert \<open>str_nat\<close>).\<close>

definition digits_value :: "ustring \<Rightarrow> nat" where
  "digits_value ds = foldl (\<lambda>a d. 10 * a + (d - 48)) 0 ds"

section \<open>The token filter\<close>

text \<open>
  The character class of the pattern in \<open>is_chinese_word\<close>:
  the ranges U+4E00 to U+9FFF, U+3400 to U+4DBF and U+20000 to U+2A6DF.
\<close>

definition chinese_char :: "nat \<Rightarrow> bool" where
  "chinese_char c =
     ((0x4E00 \<le> c \<and> c \<le> 0x9FFF) \<or> (0x3400 \<le> c \<and> c \<le> 0x4DBF)
      \<or> (0x20000 \<le> c \<and> c \<le> 0x2A6DF))"

text \<open>
  \<open>$\<close> of Python's \<open>re\<close> without flags, tested on the rest of the subject: it
  matches at the end of the string and also just before a newline that is the last
  character of the string.
\<close>

definition at_dollar :: "ustring \<Rightarrow> bool" where
  "at_dollar rest = (rest = [] \<or> rest = [LF])"

text \<open>
  The backtracking match of \<open>[class]*$\<close> on the rest of the subject: the greedy
  repetition first takes one more character of the class, and on failure gives the
  position to \<open>$\<close>.
\<close>

fun class_star_dollar :: "ustring \<Rightarrow> bool" where
  "class_star_dollar [] = at_dollar []"
| "class_star_dollar (c # cs) = ((chinese_char c \<and> class_star_dollar cs) \<or> at_dollar (c # cs))"

text \<open>
  \<open>is_chinese_word\<close>: \<open>re.match\<close> of \<open>^[class]+$\<close>, anchored at position 0; the
  repetition needs at least one character of the class.
\<close>

definition is_chinese_word :: "ustring \<Rightarrow> bool" where
  "is_chinese_word word =
     (case word of [] \<Rightarrow> False | c # cs \<Rightarrow> chinese_char c \<and> class_star_dollar cs)"

section \<open>Extraction\<close>

text \<open>
  \<open>extract_chinese_words\<close>. The segmenter \<open>jieba.cut\<close> is an external library: it
  is the parameter \<open>jieba_cut\<close>, which gives the finite sequence of tokens of a text. The
  loop strips every token and adds it to the set when it is non-empty and passes
  the filter.
\<close>

definition extract_chinese_words :: "(ustring \<Rightarrow> ustring list) \<Rightarrow> ustring \<Rightarrow> ustring set" where
  "extract_chinese_words jieba_cut content =
     (if content = [] then {}
      else fold (\<lambda>word unique_words.
                   let word = strip word
                   in if word \<noteq> [] \<and> is_chinese_word word then insert word unique_words
                      else unique_words)
             (jieba_cut content) {})"

section \<open>Properties of the filter and of extraction\<close>

lemma class_star_dollar_iff:
  "class_star_dollar cs \<longleftrightarrow>
     (\<exists>body. list_all chinese_char body \<and> (cs = body \<or> cs = body @ [LF]))"
proof (induction cs)
  case Nil
  show ?case by (simp add: at_dollar_def)
next
  case (Cons c cs)
  show ?case
  proof
    assume "class_star_dollar (c # cs)"
    then consider (more) "chinese_char c" "class_star_dollar cs" | (stop) "at_dollar (c # cs)"
      by auto
    then show "\<exists>body. list_all chinese_char body \<and> (c # cs = body \<or> c # cs = body @ [LF])"
    proof cases
      case more
      then obtain body where "list_all chinese_char body" "cs = body \<or> cs = body @ [LF]"
        using Cons.IH by blast
      with more(1) have "list_all chinese_char (c # body)
          \<and> (c # cs = c # body \<or> c # cs = (c # body) @ [LF])"
        by auto
      then show ?thesis by blast
    next
      case stop
      then have "list_all chinese_char [] \<and> (c # cs = [] \<or> c # cs = [] @ [LF])"
        by (simp add: at_dollar_def)
      then show ?thesis by blast
    qed
  next
    assume "\<exists>body. list_all chinese_char body \<and> (c # cs = body \<or> c # cs = body @ [LF])"
    then obtain body where b: "list_all chinese_char body"
      and e: "c # cs = body \<or> c # cs = body @ [LF]"
      by blast
    show "class_star_dollar (c # cs)"
    proof (cases body)
      case Nil
      with e show ?thesis by (simp add: at_dollar_def)
    next
      case (Cons b bs)
      with b e have "chinese_char c" "list_all chinese_char bs" "cs = bs \<or> cs = bs @ [LF]"
        by auto
      then show ?thesis using Cons.IH by auto
    qed
  qed
qed

lemma is_chinese_word_iff:
  "is_chinese_word w \<longleftrightarrow>
     (\<exists>body. body \<noteq> [] \<and> list_all chinese_char body \<and> (w = body \<or> w = body @ [LF]))"
proof (cases w)
  case Nil
  then show ?thesis by (simp add: is_chinese_word_def)
next
  case (Cons c cs)
  show ?thesis
  proof
    assume "is_chinese_word w"
    with Cons have c: "chinese_char c" and "class_star_dollar cs"
      by (simp_all add: is_chinese_word_def)
    then obtain body where "list_all chinese_char body" "cs = body \<or> cs = body @ [LF]"
      using class_star_dollar_iff by blast
    with c Cons have "c # body \<noteq> [] \<and> list_all chinese_char (c # body)
        \<and> (w = c # body \<or> w = (c # body) @ [LF])"
      by auto
    then show "\<exists>body. body \<noteq> [] \<and> list_all chinese_char body \<and> (w = body \<or> w = body @ [LF])"
      by blast
  next
    assume "\<exists>body. body \<noteq> [] \<and> list_all chinese_char body \<and> (w = body \<or> w = body @ [LF])"
    then obtain body where n: "body \<noteq> []" and b: "list_all chinese_char body"
      and e: "w = body \<or> w = body @ [LF]"
      by blast
    from n obtain b0 bs where body: "body = b0 # bs" by (cases body) auto
    with b e Cons have "chinese_char c" "list_all chinese_char bs" "cs = bs \<or> cs = bs @ [LF]"
      by auto
    then have "chinese_char c" "class_star_dollar cs"
      using class_star_dollar_iff by blast+
    with Cons show "is_chinese_word w" by (simp add: is_chinese_word_def)
  qed
qed

lemma isspace_LF: "isspace LF"
  by (simp add: isspace_def LF_def)

lemma chinese_char_not_space: "chinese_char c \<Longrightarrow> \<not> isspace c"
  by (auto simp: chinese_char_def isspace_def)

lemma chinese_char_not_LF: "chinese_char c \<Longrightarrow> c \<noteq> LF"
  using chinese_char_not_space isspace_LF by blast

lemma strip_eq_Nil_or_ends:
  "strip s = [] \<or> (\<not> isspace (hd (strip s)) \<and> \<not> isspace (last (strip s)))"
proof (cases "strip s = []")
  case True
  then show ?thesis by simp
next
  case False
  define d where "d = dropWhile isspace s"
  define r where "r = dropWhile isspace (rev d)"
  have s: "strip s = rev r" by (simp add: strip_def d_def r_def)
  from False s have r: "r \<noteq> []" by simp
  then have "\<not> isspace (hd r)" unfolding r_def by (rule hd_dropWhile)
  with r s have l: "\<not> isspace (last (strip s))" by (simp add: last_rev)
  have "d \<noteq> []"
  proof
    assume "d = []"
    then have "r = []" by (simp add: r_def)
    with r show False by simp
  qed
  then have hd_d: "\<not> isspace (hd d)" unfolding d_def by (rule hd_dropWhile)
  have "rev d = takeWhile isspace (rev d) @ r" by (simp add: r_def)
  then have "rev (rev d) = rev (takeWhile isspace (rev d) @ r)" by simp
  then have "d = rev r @ rev (takeWhile isspace (rev d))" by simp
  then have "hd d = hd (rev r @ rev (takeWhile isspace (rev d)))" by simp
  with r have "hd d = hd (rev r)" by simp
  with hd_d s have "\<not> isspace (hd (strip s))" by simp
  with l show ?thesis by simp
qed

lemma strip_fixed:
  assumes "w \<noteq> []" "\<not> isspace (hd w)" "\<not> isspace (last w)"
  shows "strip w = w"
proof -
  from assms have "dropWhile isspace w = w" by (cases w) auto
  moreover from assms have "dropWhile isspace (rev w) = rev w"
    by (cases "rev w") (auto simp: last_rev [symmetric] hd_rev)
  ultimately show ?thesis by (simp add: strip_def)
qed

lemma strip_idem: "strip (strip s) = strip s"
proof (cases "strip s = []")
  case True
  have "strip [] = []" by (simp add: strip_def)
  with True show ?thesis by simp
next
  case False
  with strip_eq_Nil_or_ends [of s] show ?thesis by (simp add: strip_fixed)
qed

lemma stripped_chinese_word:
  assumes "is_chinese_word (strip w)"
  shows "list_all chinese_char (strip w)"
proof -
  from assms obtain body where n: "body \<noteq> []" and b: "list_all chinese_char body"
    and e: "strip w = body \<or> strip w = body @ [LF]"
    using is_chinese_word_iff by blast
  from n e have ne: "strip w \<noteq> []" by auto
  with strip_eq_Nil_or_ends [of w] have "\<not> isspace (last (strip w))" by simp
  with isspace_LF have "strip w \<noteq> body @ [LF]" by auto
  with e b show ?thesis by simp
qed

lemma extract_fold_invariant:
  "x \<in> fold (\<lambda>word unique_words.
               let word = strip word
               in if word \<noteq> [] \<and> is_chinese_word word then insert word unique_words
                  else unique_words) ws acc
   \<longleftrightarrow> x \<in> acc \<or> (\<exists>w \<in> set ws. x = strip w \<and> strip w \<noteq> [] \<and> is_chinese_word (strip w))"
  by (induction ws arbitrary: acc) (auto simp: Let_def)

lemma extract_chinese_words_iff:
  "x \<in> extract_chinese_words jieba_cut content \<longleftrightarrow>
     content \<noteq> [] \<and> (\<exists>w \<in> set (jieba_cut content). x = strip w \<and> x \<noteq> [] \<and> is_chinese_word x)"
  by (auto simp: extract_chinese_words_def extract_fold_invariant)

lemma finite_extract_fold:
  "finite acc \<Longrightarrow>
   finite (fold (\<lambda>word unique_words.
               let word = strip word
               in if word \<noteq> [] \<and> is_chinese_word word then insert word unique_words
                  else unique_words) ws acc)"
  by (induction ws arbitrary: acc) (auto simp: Let_def)

lemma finite_extract_chinese_words: "finite (extract_chinese_words jieba_cut content)"
  by (simp add: extract_chinese_words_def finite_extract_fold)

lemma extract_chinese_words_chinese:
  assumes "x \<in> extract_chinese_words jieba_cut content"
  shows "x \<noteq> [] \<and> strip x = x \<and> is_chinese_word x \<and> list_all chinese_char x"
proof -
  from assms obtain w where w: "x = strip w" "x \<noteq> []" "is_chinese_word x"
    using extract_chinese_words_iff by blast
  then have "list_all chinese_char x" using stripped_chinese_word by blast
  with w show ?thesis by (simp add: strip_idem)
qed

lemma extract_chinese_words_no_LF:
  assumes "x \<in> extract_chinese_words jieba_cut content"
  shows "LF \<notin> set x"
proof -
  from assms have "list_all chinese_char x" using extract_chinese_words_chinese by blast
  then show ?thesis using chinese_char_not_LF by (auto simp: list_all_iff)
qed

section \<open>Paths and the file system\<close>

text \<open>
  Paths are strings in \<open>pathlib\<close>'s normal form (POSIX, no trailing slash).
  \<open>joinpath d n\<close> is \<open>Path(d) / n\<close> for a file name \<open>n\<close>; \<open>path_name\<close> is
  \<open>Path.name\<close>, the last component.
\<close>

definition joinpath :: "ustring \<Rightarrow> ustring \<Rightarrow> ustring" where
  "joinpath d n = d @ u ''/'' @ n"

definition path_name :: "ustring \<Rightarrow> ustring" where
  "path_name p = rev (takeWhile (\<lambda>c. c \<noteq> 47) (rev p))"

text \<open>\<open>name.rfind('.')\<close>: the index of the last dot, \<open>-1\<close> when there is none.\<close>

definition rfind_dot :: "ustring \<Rightarrow> int" where
  "rfind_dot name =
     (if 46 \<in> set name
      then int (length name) - 1 - int (length (takeWhile (\<lambda>c. c \<noteq> 46) (rev name)))
      else - 1)"

text \<open>
  \<open>Path.stem\<close>: the name without its last suffix; a dot at the start or at the end
  of the name does not begin a suffix.
\<close>

definition stem :: "ustring \<Rightarrow> ustring" where
  "stem p =
     (let name = path_name p; i = rfind_dot name
      in if 0 < i \<and> i < int (length name) - 1 then take (nat i) name else name)"

text \<open>
  The file system is a finite map from paths to nodes. A regular file either holds
  text (what \<open>read()\<close> returns after UTF-8 decoding), or bytes that are not valid
  UTF-8, or cannot be opened for reading at all. \<open>Special\<close> is a node that is
  neither a regular file nor a directory (a device, a socket, a FIFO).
\<close>

datatype fdata = Text ustring | Undecodable | Unreadable

datatype node = File fdata | Dir | Special

type_synonym filesystem = "(ustring, node) fmap"

definition path_exists :: "filesystem \<Rightarrow> ustring \<Rightarrow> bool" where
  "path_exists fs p = (fmlookup fs p \<noteq> None)"

text \<open>
  The candidate with a numeric suffix: \<open>{base}_{counter}.txt\<close> in the output
  directory, where \<open>base\<close> is \<open>{base_name}_segmented\<close> in \<open>get_unique_output_path\<close>
  and \<open>{dir_name}_merged_segmented\<close> in \<open>process_directory_merged\<close>.
\<close>

definition suffixed :: "ustring \<Rightarrow> ustring \<Rightarrow> nat \<Rightarrow> ustring" where
  "suffixed output_dir base counter =
     joinpath output_dir (base @ u ''_'' @ str_nat counter @ u ''.txt'')"

text \<open>
  The loop \<open>while output_path.exists(): output_path = ...; counter += 1\<close>, which both
  functions contain. It ends because the file system is finite and the candidates
  are pairwise different.
\<close>

function unique_loop :: "filesystem \<Rightarrow> ustring \<Rightarrow> ustring \<Rightarrow> ustring \<Rightarrow> nat \<Rightarrow> ustring" where
  "unique_loop fs output_dir base output_path counter =
     (if path_exists fs output_path
      then unique_loop fs output_dir base (suffixed output_dir base counter) (counter + 1)
      else output_path)"
  by pat_completeness auto

lemma digits_value_str_nat: "digits_value (str_nat n) = n"
proof (induction n rule: str_nat.induct)
  case (1 n)
  show ?case
  proof (cases "n < 10")
    case True
    then show ?thesis by (subst str_nat.simps) (simp add: digits_value_def)
  next
    case False
    with 1 have "digits_value (str_nat (n div 10)) = n div 10" by simp
    with False show ?thesis
      by (subst str_nat.simps) (simp add: digits_value_def)
  qed
qed

lemma inj_str_nat: "inj str_nat"
  by (rule inj_on_inverseI [where g = digits_value]) (rule digits_value_str_nat)

lemma inj_suffixed: "inj (suffixed output_dir base)"
proof (rule injI)
  fix j k
  assume "suffixed output_dir base j = suffixed output_dir base k"
  then have "str_nat j = str_nat k" by (simp add: suffixed_def joinpath_def)
  then show "j = k" using inj_str_nat by (simp add: inj_eq)
qed

lemma finite_suffixed_existing:
  "finite {k. c \<le> k \<and> path_exists fs (suffixed output_dir base k)}"
proof -
  have "{k. c \<le> k \<and> path_exists fs (suffixed output_dir base k)}
          \<subseteq> suffixed output_dir base -` fmdom' fs"
    by (auto simp: path_exists_def fmdom'I)
  moreover have "finite (suffixed output_dir base -` fmdom' fs)"
    by (rule finite_vimageI) (simp_all add: inj_suffixed)
  ultimately show ?thesis by (rule finite_subset)
qed

termination unique_loop
proof (relation "measure (\<lambda>(fs, output_dir, base, output_path, counter).
          2 * card {k. counter \<le> k \<and> path_exists fs (suffixed output_dir base k)}
          + (if path_exists fs output_path then 1 else 0))")
  show "wf (measure (\<lambda>(fs, output_dir, base, output_path, counter).
          2 * card {k. counter \<le> k \<and> path_exists fs (suffixed output_dir base k)}
          + (if path_exists fs output_path then 1 else 0)))"
    by simp
next
  fix fs :: filesystem and output_dir base output_path :: ustring and counter :: nat
  assume ex: "path_exists fs output_path"
  let ?S = "\<lambda>c. {k. c \<le> k \<and> path_exists fs (suffixed output_dir base k)}"
  have sub: "?S (counter + 1) \<subseteq> ?S counter" by auto
  have le: "card (?S (counter + 1)) \<le> card (?S counter)"
    by (rule card_mono [OF finite_suffixed_existing sub])
  have "2 * card (?S (counter + 1))
          + (if path_exists fs (suffixed output_dir base counter) then 1 else 0)
        < 2 * card (?S counter) + 1"
  proof (cases "path_exists fs (suffixed output_dir base counter)")
    case True
    then have "counter \<in> ?S counter" "counter \<notin> ?S (counter + 1)" by auto
    with sub have "?S (counter + 1) \<subset> ?S counter" by blast
    then have "card (?S (counter + 1)) < card (?S counter)"
      by (rule psubset_card_mono [OF finite_suffixed_existing])
    with True show ?thesis by simp
  next
    case False
    with le show ?thesis by simp
  qed
  with ex show "((fs, output_dir, base, suffixed output_dir base counter, counter + 1),
                 (fs, output_dir, base, output_path, counter))
        \<in> measure (\<lambda>(fs, output_dir, base, output_path, counter).
          2 * card {k. counter \<le> k \<and> path_exists fs (suffixed output_dir base k)}
          + (if path_exists fs output_path then 1 else 0))"
    by simp
qed

declare unique_loop.simps [simp del]

definition get_unique_output_path :: "filesystem \<Rightarrow> ustring \<Rightarrow> ustring \<Rightarrow> ustring" where
  "get_unique_output_path fs output_dir base_filename =
     (let base_name = stem base_filename;
          extension = u ''.txt'';
          output_path = joinpath output_dir (base_name @ u ''_segmented'' @ extension)
      in unique_loop fs output_dir (base_name @ u ''_segmented'') output_path 1)"

lemma unique_loop_first_free:
  "\<not> path_exists fs (unique_loop fs d b p c)
   \<and> (if path_exists fs p
      then \<exists>k \<ge> c. unique_loop fs d b p c = suffixed d b k
              \<and> (\<forall>j. c \<le> j \<and> j < k \<longrightarrow> path_exists fs (suffixed d b j))
      else unique_loop fs d b p c = p)"
proof (induction fs d b p c rule: unique_loop.induct)
  case (1 fs d b p c)
  show ?case
  proof (cases "path_exists fs p")
    case False
    then show ?thesis by (subst (1 2) unique_loop.simps) simp
  next
    case True
    let ?r = "unique_loop fs d b (suffixed d b c) (c + 1)"
    have r: "unique_loop fs d b p c = ?r"
      using True by (subst unique_loop.simps) simp
    from 1 [OF True] have free: "\<not> path_exists fs ?r"
      and ih: "if path_exists fs (suffixed d b c)
        then \<exists>k \<ge> c + 1. ?r = suffixed d b k
              \<and> (\<forall>j. c + 1 \<le> j \<and> j < k \<longrightarrow> path_exists fs (suffixed d b j))
        else ?r = suffixed d b c"
      by blast+
    have "\<exists>k \<ge> c. ?r = suffixed d b k
              \<and> (\<forall>j. c \<le> j \<and> j < k \<longrightarrow> path_exists fs (suffixed d b j))"
    proof (cases "path_exists fs (suffixed d b c)")
      case False
      with ih have "?r = suffixed d b c" by simp
      then show ?thesis by auto
    next
      case ex: True
      with ih obtain k where k: "c + 1 \<le> k" "?r = suffixed d b k"
        "\<forall>j. c + 1 \<le> j \<and> j < k \<longrightarrow> path_exists fs (suffixed d b j)"
        by auto
      have "path_exists fs (suffixed d b j)" if "c \<le> j" "j < k" for j
      proof (cases "j = c")
        case True
        with ex show ?thesis by simp
      next
        case False
        with that k(3) show ?thesis by simp
      qed
      with k show ?thesis by (intro exI [of _ k]) auto
    qed
    with free True r show ?thesis by simp
  qed
qed

section \<open>Program state, console output and exceptions\<close>

text \<open>
  The exceptions that the handlers of the source tell apart: \<open>UnicodeDecodeError\<close>,
  and every other \<open>Exception\<close> (an \<open>OSError\<close> of the file system, for instance).
\<close>

datatype exn = UnicodeDecodeError | OtherException

text \<open>One constructor for each \<open>print\<close> of the source, with the values it shows.\<close>

datatype msg =
    WarnEmpty ustring
  | WarnNoWords ustring
  | Processed ustring ustring
  | WordCount nat
  | ErrEncoding ustring
  | ErrException ustring
  | WarnNoFiles ustring
  | Found nat
  | MergeMode
  | FileDone ustring nat
  | ErrNothingExtracted
  | MergedSummary nat nat nat ustring
  | DuplicateNames "(ustring \<times> nat) list"
  | DuplicateName ustring
  | ErrNoPath ustring
  | StartFile ustring
  | StartDir ustring
  | RecursiveOn
  | ModeMerged
  | ModeSeparate
  | DoneMerged nat nat ustring
  | DoneSeparate nat nat ustring
  | NothingProcessed
  | ErrNotFileOrDir ustring

record state =
  files :: filesystem
  console :: "msg list"

text \<open>
  What the program does not control: the segmenter \<open>jieba.cut\<close>, the directory
  listing \<open>Path.glob\<close> (directory and pattern to the matching paths), the order in
  which \<open>list(set(...))\<close> yields its elements, and the paths that the operating
  system refuses to create (permissions, read-only media).
\<close>

record env =
  segmenter :: "ustring \<Rightarrow> ustring list"
  globber :: "ustring \<Rightarrow> ustring \<Rightarrow> ustring list"
  set_order :: "ustring list \<Rightarrow> ustring list"
  denied :: "ustring \<Rightarrow> bool"

type_synonym result = "ustring \<times> nat \<times> ustring set"

definition say :: "msg \<Rightarrow> state \<Rightarrow> state" where
  "say m st = st\<lparr>console := console st @ [m]\<rparr>"

definition is_file :: "filesystem \<Rightarrow> ustring \<Rightarrow> bool" where
  "is_file fs p = (case fmlookup fs p of Some (File _) \<Rightarrow> True | _ \<Rightarrow> False)"

definition is_dir :: "filesystem \<Rightarrow> ustring \<Rightarrow> bool" where
  "is_dir fs p = (fmlookup fs p = Some Dir)"

text \<open>
  \<open>open(file_path, 'r', encoding='utf-8')\<close> followed by \<open>f.read()\<close>: the text of a
  decodable regular file; \<open>UnicodeDecodeError\<close> on bytes that are not UTF-8; another
  exception when the path cannot be opened for reading.
\<close>

definition read_text :: "state \<Rightarrow> ustring \<Rightarrow> exn + ustring" where
  "read_text st file_path =
     (case fmlookup (files st) file_path of
        Some (File (Text content)) \<Rightarrow> Inr content
      | Some (File Undecodable) \<Rightarrow> Inl UnicodeDecodeError
      | _ \<Rightarrow> Inl OtherException)"

text \<open>
  \<open>ensure_output_dir\<close>: \<open>mkdir(parents=True, exist_ok=True)\<close>. An existing directory
  is left as it is; a path that exists and is no directory raises
  (\<open>FileExistsError\<close>); otherwise the directory is created unless the operating
  system refuses. Parent directories are not modelled.
\<close>

definition ensure_output_dir :: "env \<Rightarrow> state \<Rightarrow> ustring \<Rightarrow> exn + state" where
  "ensure_output_dir env st output_path =
     (case fmlookup (files st) output_path of
        Some Dir \<Rightarrow> Inr st
      | Some _ \<Rightarrow> Inl OtherException
      | None \<Rightarrow>
          if denied env output_path then Inl OtherException
          else Inr (st\<lparr>files := fmupd output_path Dir (files st)\<rparr>))"

text \<open>
  The text that the loop \<open>for word in sorted(unique_words): f.write(word + '\n')\<close>
  writes (on POSIX, where \<open>'\n'\<close> is written as one LF).
\<close>

definition render :: "ustring set \<Rightarrow> ustring" where
  "render unique_words =
     foldl (\<lambda>buf word. buf @ word @ [LF]) [] (sorted_list_of_set unique_words)"

text \<open>
  \<open>open(output_path, 'w', encoding='utf-8')\<close> and the writing loop. Opening raises
  on a directory and on a path that the operating system refuses; a special node
  swallows what is written; otherwise the file holds the rendered text afterwards.
  The directory of the path is taken to exist (the callers create it first).
\<close>

definition write_words :: "env \<Rightarrow> state \<Rightarrow> ustring \<Rightarrow> ustring set \<Rightarrow> exn + state" where
  "write_words env st output_path unique_words =
     (if denied env output_path then Inl OtherException
      else case fmlookup (files st) output_path of
             Some Dir \<Rightarrow> Inl OtherException
           | Some Special \<Rightarrow> Inr st
           | _ \<Rightarrow> Inr (st\<lparr>files := fmupd output_path (File (Text (render unique_words))) (files st)\<rparr>))"

section \<open>Processing one file\<close>

text \<open>The body of the \<open>try\<close> block of \<open>process_file\<close>.\<close>

definition process_file_body ::
    "env \<Rightarrow> state \<Rightarrow> ustring \<Rightarrow> ustring \<Rightarrow> (exn + result option) \<times> state" where
  "process_file_body env st file_path output_dir =
     (case read_text st file_path of
        Inl e \<Rightarrow> (Inl e, st)
      | Inr raw \<Rightarrow>
          let content = strip raw
          in if content = [] then (Inr None, say (WarnEmpty file_path) st)
             else
               let unique_words = extract_chinese_words (segmenter env) content
               in if unique_words = {} then (Inr None, say (WarnNoWords file_path) st)
                  else
                    (case ensure_output_dir env st output_dir of
                       Inl e \<Rightarrow> (Inl e, st)
                     | Inr st1 \<Rightarrow>
                         let output_path =
                               get_unique_output_path (files st1) output_dir (path_name file_path)
                         in (case write_words env st1 output_path unique_words of
                               Inl e \<Rightarrow> (Inl e, st1)
                             | Inr st2 \<Rightarrow>
                                 (Inr (Some (output_path, card unique_words, unique_words)),
                                  say (WordCount (card unique_words))
                                    (say (Processed file_path output_path) st2)))))"

text \<open>\<open>process_file\<close>: the \<open>try\<close> block with its two handlers.\<close>

definition process_file :: "env \<Rightarrow> state \<Rightarrow> ustring \<Rightarrow> ustring \<Rightarrow> result option \<times> state" where
  "process_file env st file_path output_dir =
     (case process_file_body env st file_path output_dir of
        (Inl UnicodeDecodeError, st') \<Rightarrow> (None, say (ErrEncoding file_path) st')
      | (Inl OtherException, st') \<Rightarrow> (None, say (ErrException file_path) st')
      | (Inr r, st') \<Rightarrow> (r, st'))"

section \<open>Processing a directory\<close>

text \<open>
  \<open>d[k] = d.get(k, 0) + 1\<close> on a dictionary, kept as an association list in
  insertion order.
\<close>

definition dict_bump :: "(ustring \<times> nat) list \<Rightarrow> ustring \<Rightarrow> (ustring \<times> nat) list" where
  "dict_bump d k = AList.update k (case map_of d k of None \<Rightarrow> 1 | Some c \<Rightarrow> c + 1) d"

text \<open>\<open>{name: count for name, count in processed_files.items() if count > 1}\<close>\<close>

definition duplicate_files :: "(ustring \<times> nat) list \<Rightarrow> (ustring \<times> nat) list" where
  "duplicate_files processed = filter (\<lambda>(name, count). count > 1) processed"

definition report_duplicates :: "(ustring \<times> nat) list \<Rightarrow> state \<Rightarrow> state" where
  "report_duplicates processed st =
     (if duplicate_files processed \<noteq> [] then say (DuplicateNames (duplicate_files processed)) st
      else st)"

text \<open>The local variables of \<open>process_directory_merged\<close> that its loop updates.\<close>

record merged_vars =
  all_unique_words :: "ustring set"
  processed_files :: "(ustring \<times> nat) list"
  successful_files :: nat

text \<open>The body of the \<open>try\<close> block inside the loop of \<open>process_directory_merged\<close>.\<close>

definition merged_body ::
    "env \<Rightarrow> ustring \<Rightarrow> merged_vars \<Rightarrow> state \<Rightarrow> (exn + unit) \<times> merged_vars \<times> state" where
  "merged_body env file_path vars st =
     (case read_text st file_path of
        Inl e \<Rightarrow> (Inl e, vars, st)
      | Inr raw \<Rightarrow>
          let content = strip raw
          in if content = [] then (Inr (), vars, say (WarnEmpty file_path) st)
             else
               let unique_words = extract_chinese_words (segmenter env) content
               in if unique_words = {} then (Inr (), vars, say (WarnNoWords file_path) st)
                  else
                    (Inr (),
                     vars\<lparr>all_unique_words := all_unique_words vars \<union> unique_words,
                          successful_files := successful_files vars + 1,
                          processed_files := dict_bump (processed_files vars) (path_name file_path)\<rparr>,
                     say (FileDone file_path (card unique_words)) st))"

text \<open>One iteration: the \<open>try\<close> block with its two handlers.\<close>

definition merged_step ::
    "env \<Rightarrow> ustring \<Rightarrow> merged_vars \<Rightarrow> state \<Rightarrow> (exn + unit) \<times> merged_vars \<times> state" where
  "merged_step env file_path vars st =
     (case merged_body env file_path vars st of
        (Inl UnicodeDecodeError, vars', st') \<Rightarrow> (Inr (), vars', say (ErrEncoding file_path) st')
      | (Inl OtherException, vars', st') \<Rightarrow> (Inr (), vars', say (ErrException file_path) st')
      | (Inr x, vars', st') \<Rightarrow> (Inr x, vars', st'))"

text \<open>
  The loop \<open>for file_path in text_files\<close>: an exception that leaves an iteration
  ends the loop and the function.
\<close>

fun merged_loop ::
    "env \<Rightarrow> ustring list \<Rightarrow> merged_vars \<Rightarrow> state \<Rightarrow> (exn + unit) \<times> merged_vars \<times> state" where
  "merged_loop env [] vars st = (Inr (), vars, st)"
| "merged_loop env (file_path # rest) vars st =
     (case merged_step env file_path vars st of
        (Inl e, vars', st') \<Rightarrow> (Inl e, vars', st')
      | (Inr _, vars', st') \<Rightarrow> merged_loop env rest vars' st')"

definition process_directory_merged ::
    "env \<Rightarrow> state \<Rightarrow> ustring \<Rightarrow> ustring list \<Rightarrow> ustring \<Rightarrow> (exn + result list) \<times> state" where
  "process_directory_merged env st directory_path text_files output_dir =
     (case merged_loop env text_files
             \<lparr>all_unique_words = {}, processed_files = [], successful_files = 0\<rparr>
             (say MergeMode st) of
        (Inl e, vars, st1) \<Rightarrow> (Inl e, st1)
      | (Inr _, vars, st1) \<Rightarrow>
          if all_unique_words vars = {} then (Inr [], say ErrNothingExtracted st1)
          else
            let dir_name = path_name directory_path;
                output_path = joinpath output_dir (dir_name @ u ''_merged_segmented.txt'');
                output_path = unique_loop (files st1) output_dir
                                (dir_name @ u ''_merged_segmented'') output_path 1
            in (case write_words env st1 output_path (all_unique_words vars) of
                  Inl e \<Rightarrow> (Inl e, st1)
                | Inr st2 \<Rightarrow>
                    (Inr [(output_path, card (all_unique_words vars), all_unique_words vars)],
                     report_duplicates (processed_files vars)
                       (say (MergedSummary (successful_files vars) (length text_files)
                               (card (all_unique_words vars)) output_path) st2))))"

text \<open>The loop of \<open>process_directory_separate\<close>.\<close>

fun separate_loop ::
    "env \<Rightarrow> ustring \<Rightarrow> ustring list \<Rightarrow> result list \<Rightarrow> (ustring \<times> nat) list \<Rightarrow> state
      \<Rightarrow> result list \<times> (ustring \<times> nat) list \<times> state" where
  "separate_loop env output_dir [] results processed st = (results, processed, st)"
| "separate_loop env output_dir (file_path # rest) results processed st =
     (let filename = path_name file_path;
          st1 = (if map_of processed filename \<noteq> None then say (DuplicateName file_path) st
                 else st)
      in case process_file env st1 file_path output_dir of
           (None, st2) \<Rightarrow> separate_loop env output_dir rest results processed st2
         | (Some r, st2) \<Rightarrow>
             separate_loop env output_dir rest (results @ [r]) (dict_bump processed filename) st2)"

definition process_directory_separate ::
    "env \<Rightarrow> state \<Rightarrow> ustring list \<Rightarrow> ustring \<Rightarrow> result list \<times> state" where
  "process_directory_separate env st text_files output_dir =
     (case separate_loop env output_dir text_files [] [] st of
        (results, processed, st1) \<Rightarrow> (results, report_duplicates processed st1))"

definition extensions :: "ustring list" where
  "extensions = [u ''.txt'', u ''.md'', u ''.csv'', u ''.json'', u ''.xml'', u ''.html'', u ''.htm'']"

text \<open>
  \<open>process_directory\<close>. \<open>list(set(xs))\<close> keeps one copy of every element, in an order
  that the program does not choose: \<open>remdups\<close> followed by the environment's
  reordering.
\<close>

definition process_directory ::
    "env \<Rightarrow> state \<Rightarrow> ustring \<Rightarrow> ustring \<Rightarrow> bool \<Rightarrow> bool \<Rightarrow> (exn + result list) \<times> state" where
  "process_directory env st directory_path output_dir recursive merge_output =
     (let text_files =
            concat (map (\<lambda>ext. globber env directory_path
                                  ((if recursive then u ''**/*'' else u ''*'') @ ext))
                      extensions);
          text_files = set_order env (remdups (filter (is_file (files st)) text_files))
      in if text_files = [] then (Inr [], say (WarnNoFiles directory_path) st)
         else
           let st1 = say (Found (length text_files)) st
           in (case ensure_output_dir env st1 output_dir of
                 Inl e \<Rightarrow> (Inl e, st1)
               | Inr st2 \<Rightarrow>
                   if merge_output
                   then process_directory_merged env st2 directory_path text_files output_dir
                   else (case process_directory_separate env st2 text_files output_dir of
                           (results, st3) \<Rightarrow> (Inr results, st3))))"

section \<open>The command line\<close>

record args =
  arg_path :: ustring
  arg_output_dir :: ustring
  arg_recursive :: bool
  arg_no_merge :: bool
  arg_verbose :: bool

text \<open>
  How the process ends: \<open>sys.exit(n)\<close> or the normal end of \<open>main\<close> (status 0), or an
  exception that nothing catches, on which the interpreter prints a traceback and
  ends with status 1.
\<close>

datatype outcome = Exit nat | Traceback

fun exit_code :: "outcome \<Rightarrow> nat" where
  "exit_code (Exit n) = n"
| "exit_code Traceback = 1"

text \<open>\<open>main\<close>, from the parsed arguments on (\<open>init_jieba\<close> only configures the library).\<close>

text \<open>The messages of \<open>main\<close> before it calls \<open>process_directory\<close>.\<close>

definition announce_directory :: "args \<Rightarrow> state \<Rightarrow> state" where
  "announce_directory a st =
     (let st1 = say (StartDir (arg_path a)) st;
          st2 = (if arg_recursive a then say RecursiveOn st1 else st1)
      in if \<not> arg_no_merge a then say ModeMerged st2 else say ModeSeparate st2)"

definition main :: "env \<Rightarrow> state \<Rightarrow> args \<Rightarrow> outcome \<times> state" where
  "main env st a =
     (if \<not> path_exists (files st) (arg_path a) then (Exit 1, say (ErrNoPath (arg_path a)) st)
      else if is_file (files st) (arg_path a) then
        (case process_file env (say (StartFile (arg_path a)) st) (arg_path a) (arg_output_dir a) of
           (None, st1) \<Rightarrow> (Exit 1, st1)
         | (Some r, st1) \<Rightarrow> (Exit 0, st1))
      else if is_dir (files st) (arg_path a) then
        (let merge_output = (\<not> arg_no_merge a)
         in case process_directory env (announce_directory a st) (arg_path a) (arg_output_dir a)
                   (arg_recursive a) merge_output of
              (Inl e, st4) \<Rightarrow> (Traceback, st4)
            | (Inr results, st4) \<Rightarrow>
                if results \<noteq> [] then
                  (if merge_output then
                     (case hd results of
                        (output_path, total_words, _) \<Rightarrow>
                          (Exit 0, say (DoneMerged (length results) total_words output_path) st4))
                   else
                     (Exit 0,
                      say (DoneSeparate (length results)
                             (sum_list (map (\<lambda>(_, count, _). count) results))
                             (arg_output_dir a)) st4))
                else (Exit 1, say NothingProcessed st4))
      else (Exit 1, say (ErrNotFileOrDir (arg_path a)) st))"

section \<open>The output path is fresh\<close>

lemma unique_loop_repeat:
  assumes "p = unique_loop fs d b p0 c" "p' = unique_loop (fmupd p v fs) d b p0 c"
  shows "p' \<noteq> p \<and> \<not> path_exists fs p' \<and> (\<exists>k' \<ge> c. p' = suffixed d b k' \<and> (p = p0 \<or> (\<exists>k \<ge> c. k < k' \<and> p = suffixed d b k)))"
proof -
  let ?fs = "fmupd p v fs"
  have ex_mono: "path_exists fs q \<Longrightarrow> path_exists ?fs q" for q
    by (simp add: path_exists_def)
  have ex_p: "path_exists ?fs p" by (simp add: path_exists_def)
  have ex_iff: "path_exists ?fs q \<longleftrightarrow> q = p \<or> path_exists fs q" for q
    by (auto simp: path_exists_def)
  from unique_loop_first_free [of fs d b p0 c] assms(1)
  have free: "\<not> path_exists fs p"
    and first: "if path_exists fs p0
      then \<exists>k \<ge> c. p = suffixed d b k \<and> (\<forall>j. c \<le> j \<and> j < k \<longrightarrow> path_exists fs (suffixed d b j))
      else p = p0"
    by simp_all
  from unique_loop_first_free [of ?fs d b p0 c] assms(2)
  have free': "\<not> path_exists ?fs p'"
    and first': "if path_exists ?fs p0
      then \<exists>k \<ge> c. p' = suffixed d b k \<and> (\<forall>j. c \<le> j \<and> j < k \<longrightarrow> path_exists ?fs (suffixed d b j))
      else p' = p0"
    by simp_all
  from free' ex_p have ne: "p' \<noteq> p" by auto
  from free' have nfs: "\<not> path_exists fs p'" using ex_mono by blast
  have ex0: "path_exists ?fs p0"
  proof (cases "path_exists fs p0")
    case True
    then show ?thesis by (rule ex_mono)
  next
    case False
    with first have "p = p0" by simp
    with ex_p show ?thesis by simp
  qed
  with first' obtain k' where k': "c \<le> k'" "p' = suffixed d b k'"
    "\<forall>j. c \<le> j \<and> j < k' \<longrightarrow> path_exists ?fs (suffixed d b j)"
    by auto
  have "p = p0 \<or> (\<exists>k \<ge> c. k < k' \<and> p = suffixed d b k)"
  proof (cases "path_exists fs p0")
    case False
    with first show ?thesis by simp
  next
    case True
    with first obtain k where k: "c \<le> k" "p = suffixed d b k"
      "\<forall>j. c \<le> j \<and> j < k \<longrightarrow> path_exists fs (suffixed d b j)"
      by auto
    have "k < k'"
    proof (rule ccontr)
      assume "\<not> k < k'"
      then have "k' = k \<or> k' < k" by auto
      then show False
      proof
        assume "k' = k"
        with k(2) k'(2) ne show False by simp
      next
        assume "k' < k"
        with k(3) k'(1) have "path_exists fs (suffixed d b k')" by simp
        with k'(2) nfs show False by simp
      qed
    qed
    with k show ?thesis by auto
  qed
  with ne nfs k' show ?thesis by auto
qed

lemma suffixed_segmented:
  "suffixed d (b @ u ''_segmented'') k = joinpath d (b @ u ''_segmented_'' @ str_nat k @ u ''.txt'')"
  by (simp add: suffixed_def u_def)

lemma suffixed_merged_segmented:
  "suffixed d (b @ u ''_merged_segmented'') k
     = joinpath d (b @ u ''_merged_segmented_'' @ str_nat k @ u ''.txt'')"
  by (simp add: suffixed_def u_def)

section \<open>Reading the results\<close>

text \<open>A list of lines as text: every line followed by one LF.\<close>

definition word_list :: "ustring list \<Rightarrow> ustring" where
  "word_list ls = concat (map (\<lambda>l. l @ [LF]) ls)"

text \<open>
  The lines of a text, split at every LF; characters after the last LF form a last,
  unterminated line.
\<close>

fun split_lines :: "ustring \<Rightarrow> ustring \<Rightarrow> ustring list" where
  "split_lines cur [] = (if cur = [] then [] else [cur])"
| "split_lines cur (c # cs) =
     (if c = LF then cur # split_lines [] cs else split_lines (cur @ [c]) cs)"

definition text_lines :: "ustring \<Rightarrow> ustring list" where
  "text_lines t = split_lines [] t"

text \<open>The words of one input file, as \<open>extract_chinese_words\<close> gives them for its
  stripped content; a file that cannot be read has none.\<close>

definition file_words :: "env \<Rightarrow> filesystem \<Rightarrow> ustring \<Rightarrow> ustring set" where
  "file_words env fs file_path =
     (case fmlookup fs file_path of
        Some (File (Text raw)) \<Rightarrow> extract_chinese_words (segmenter env) (strip raw)
      | _ \<Rightarrow> {})"

text \<open>The file that a per-file console message reports on.\<close>

fun report_subject :: "msg \<Rightarrow> ustring option" where
  "report_subject (WarnEmpty p) = Some p"
| "report_subject (WarnNoWords p) = Some p"
| "report_subject (Processed p _) = Some p"
| "report_subject (FileDone p _) = Some p"
| "report_subject (ErrEncoding p) = Some p"
| "report_subject (ErrException p) = Some p"
| "report_subject _ = None"

definition reports :: "msg list \<Rightarrow> ustring list" where
  "reports ms = List.map_filter report_subject ms"

section \<open>Written word lists\<close>

lemma foldl_append_lines:
  "foldl (\<lambda>buf word. buf @ word @ [LF]) acc ls = acc @ word_list ls"
  by (induction ls arbitrary: acc) (simp_all add: word_list_def)

lemma render_word_list: "render ws = word_list (sorted_list_of_set ws)"
  by (simp add: render_def foldl_append_lines)

lemma split_lines_line:
  "LF \<notin> set l \<Longrightarrow> split_lines cur (l @ LF # rest) = (cur @ l) # split_lines [] rest"
  by (induction l arbitrary: cur) simp_all

lemma text_lines_word_list:
  "\<forall>l \<in> set ls. LF \<notin> set l \<Longrightarrow> text_lines (word_list ls) = ls"
proof (induction ls)
  case Nil
  then show ?case by (simp add: text_lines_def word_list_def)
next
  case (Cons l ls)
  then have "split_lines [] (l @ LF # word_list ls) = l # split_lines [] (word_list ls)"
    using split_lines_line [of l "[]" "word_list ls"] by simp
  with Cons show ?case by (simp add: text_lines_def word_list_def)
qed

lemma sorted_words:
  assumes "finite ws"
  shows "set (sorted_list_of_set ws) = ws" "distinct (sorted_list_of_set ws)"
    "sorted_wrt (<) (sorted_list_of_set ws)"
  using assms by simp_all

lemma files_say [simp]: "files (say m st) = files st"
  by (simp add: say_def)

lemma console_say [simp]: "console (say m st) = console st @ [m]"
  by (simp add: say_def)

lemma read_text_say [simp]: "read_text (say m st) p = read_text st p"
  by (simp add: read_text_def)

lemma read_text_files: "files st = files st' \<Longrightarrow> read_text st p = read_text st' p"
  by (simp add: read_text_def)

lemma read_text_Inr_iff:
  "read_text st p = Inr raw \<longleftrightarrow> fmlookup (files st) p = Some (File (Text raw))"
  by (auto simp: read_text_def split: option.splits node.splits fdata.splits)

lemma ensure_output_dir_Inl:
  "ensure_output_dir env st d = Inl e \<Longrightarrow> e = OtherException"
  by (auto simp: ensure_output_dir_def split: option.splits node.splits if_splits)

lemma write_words_Inl:
  "write_words env st p ws = Inl e \<Longrightarrow> e = OtherException"
  by (auto simp: write_words_def split: option.splits node.splits if_splits)

lemma ensure_output_dir_Inr:
  assumes "ensure_output_dir env st d = Inr st1"
  shows "console st1 = console st" "fmlookup (files st1) d = Some Dir"
    "fmlookup (files st) q = Some v \<Longrightarrow> fmlookup (files st1) q = Some v"
    "q \<noteq> d \<Longrightarrow> fmlookup (files st1) q = fmlookup (files st) q"
  using assms
  by (auto simp: ensure_output_dir_def split: option.splits node.splits if_splits)

lemma write_words_fresh:
  assumes "\<not> path_exists (files st) p"
  shows "write_words env st p ws =
     (if denied env p then Inl OtherException
      else Inr (st\<lparr>files := fmupd p (File (Text (render ws))) (files st)\<rparr>))"
  using assms by (simp add: write_words_def path_exists_def)

text \<open>The outcome of \<open>process_file\<close>, branch by branch.\<close>

lemma process_file_unreadable:
  assumes "read_text st fp = Inl e"
  shows "process_file env st fp od
     = (None, say (case e of UnicodeDecodeError \<Rightarrow> ErrEncoding fp | OtherException \<Rightarrow> ErrException fp) st)"
  using assms by (cases e) (simp_all add: process_file_def process_file_body_def Let_def)

lemma process_file_empty:
  assumes "read_text st fp = Inr raw" "strip raw = []"
  shows "process_file env st fp od = (None, say (WarnEmpty fp) st)"
  using assms by (simp add: process_file_def process_file_body_def Let_def)

lemma process_file_no_words:
  assumes "read_text st fp = Inr raw" "strip raw \<noteq> []"
    "extract_chinese_words (segmenter env) (strip raw) = {}"
  shows "process_file env st fp od = (None, say (WarnNoWords fp) st)"
  using assms by (simp add: process_file_def process_file_body_def Let_def)

lemma process_file_mkdir_fails:
  assumes "read_text st fp = Inr raw" "strip raw \<noteq> []"
    "extract_chinese_words (segmenter env) (strip raw) \<noteq> {}"
    "ensure_output_dir env st od = Inl e"
  shows "process_file env st fp od = (None, say (ErrException fp) st)"
proof -
  from assms(4) have "e = OtherException" by (rule ensure_output_dir_Inl)
  with assms show ?thesis by (simp add: process_file_def process_file_body_def Let_def)
qed

lemma process_file_write_fails:
  assumes "read_text st fp = Inr raw" "strip raw \<noteq> []"
    "extract_chinese_words (segmenter env) (strip raw) \<noteq> {}"
    "ensure_output_dir env st od = Inr st1"
    "write_words env st1 (get_unique_output_path (files st1) od (path_name fp))
       (extract_chinese_words (segmenter env) (strip raw)) = Inl e"
  shows "process_file env st fp od = (None, say (ErrException fp) st1)"
proof -
  from assms(5) have "e = OtherException" by (rule write_words_Inl)
  with assms show ?thesis by (simp add: process_file_def process_file_body_def Let_def)
qed

lemma process_file_written:
  assumes "read_text st fp = Inr raw" "strip raw \<noteq> []"
    "extract_chinese_words (segmenter env) (strip raw) \<noteq> {}"
    "ensure_output_dir env st od = Inr st1"
    "write_words env st1 (get_unique_output_path (files st1) od (path_name fp))
       (extract_chinese_words (segmenter env) (strip raw)) = Inr st2"
  shows "process_file env st fp od
     = (Some (get_unique_output_path (files st1) od (path_name fp),
              card (extract_chinese_words (segmenter env) (strip raw)),
              extract_chinese_words (segmenter env) (strip raw)),
        say (WordCount (card (extract_chinese_words (segmenter env) (strip raw))))
          (say (Processed fp (get_unique_output_path (files st1) od (path_name fp))) st2))"
  using assms by (simp add: process_file_def process_file_body_def Let_def)


lemma process_file_split:
  obtains (unreadable) e where "read_text st fp = Inl e"
      "process_file env st fp od = (None, say (case e of UnicodeDecodeError \<Rightarrow> ErrEncoding fp
                                                 | OtherException \<Rightarrow> ErrException fp) st)"
  | (empty) raw where "read_text st fp = Inr raw" "strip raw = []"
      "process_file env st fp od = (None, say (WarnEmpty fp) st)"
  | (no_words) raw where "read_text st fp = Inr raw" "strip raw \<noteq> []"
      "extract_chinese_words (segmenter env) (strip raw) = {}"
      "process_file env st fp od = (None, say (WarnNoWords fp) st)"
  | (mkdir_fails) raw where "read_text st fp = Inr raw" "strip raw \<noteq> []"
      "extract_chinese_words (segmenter env) (strip raw) \<noteq> {}"
      "ensure_output_dir env st od = Inl OtherException"
      "process_file env st fp od = (None, say (ErrException fp) st)"
  | (write_fails) raw st1 where "read_text st fp = Inr raw" "strip raw \<noteq> []"
      "extract_chinese_words (segmenter env) (strip raw) \<noteq> {}"
      "ensure_output_dir env st od = Inr st1"
      "write_words env st1 (get_unique_output_path (files st1) od (path_name fp))
         (extract_chinese_words (segmenter env) (strip raw)) = Inl OtherException"
      "process_file env st fp od = (None, say (ErrException fp) st1)"
  | (written) raw st1 st2 where "read_text st fp = Inr raw" "strip raw \<noteq> []"
      "extract_chinese_words (segmenter env) (strip raw) \<noteq> {}"
      "ensure_output_dir env st od = Inr st1"
      "write_words env st1 (get_unique_output_path (files st1) od (path_name fp))
         (extract_chinese_words (segmenter env) (strip raw)) = Inr st2"
      "process_file env st fp od
         = (Some (get_unique_output_path (files st1) od (path_name fp),
                  card (extract_chinese_words (segmenter env) (strip raw)),
                  extract_chinese_words (segmenter env) (strip raw)),
            say (WordCount (card (extract_chinese_words (segmenter env) (strip raw))))
              (say (Processed fp (get_unique_output_path (files st1) od (path_name fp))) st2))"
proof (cases "read_text st fp")
  case (Inl e)
  then show ?thesis using unreadable process_file_unreadable by blast
next
  case (Inr raw)
  show ?thesis
  proof (cases "strip raw = []")
    case True
    with Inr show ?thesis using empty process_file_empty by blast
  next
    case ne: False
    let ?ws = "extract_chinese_words (segmenter env) (strip raw)"
    show ?thesis
    proof (cases "?ws = {}")
      case True
      with Inr ne show ?thesis using no_words process_file_no_words by blast
    next
      case ws: False
      show ?thesis
      proof (cases "ensure_output_dir env st od")
        case (Inl e)
        then have "e = OtherException" by (rule ensure_output_dir_Inl)
        with Inl Inr ne ws show ?thesis
          using mkdir_fails process_file_mkdir_fails by blast
      next
        case st1: (Inr st1)
        show ?thesis
        proof (cases "write_words env st1 (get_unique_output_path (files st1) od (path_name fp)) ?ws")
          case (Inl e)
          then have "e = OtherException" by (rule write_words_Inl)
          with Inl Inr ne ws st1 show ?thesis
            using write_fails process_file_write_fails by blast
        next
          case (Inr st2)
          with \<open>read_text st fp = Inr raw\<close> ne ws st1 show ?thesis
            using written process_file_written by blast
        qed
      qed
    qed
  qed
qed

section \<open>The exit status\<close>

lemma is_file_exists: "is_file fs p \<Longrightarrow> path_exists fs p"
  by (auto simp: is_file_def path_exists_def split: option.splits)

lemma is_dir_exists: "is_dir fs p \<Longrightarrow> path_exists fs p"
  by (simp add: is_dir_def path_exists_def)

lemma is_dir_not_file: "is_dir fs p \<Longrightarrow> \<not> is_file fs p"
  by (simp add: is_dir_def is_file_def)

lemma main_missing:
  "\<not> path_exists (files st) (arg_path a) \<Longrightarrow>
   main env st a = (Exit 1, say (ErrNoPath (arg_path a)) st)"
  by (simp add: main_def)

lemma main_file:
  assumes "is_file (files st) (arg_path a)"
  shows "main env st a =
     (case process_file env (say (StartFile (arg_path a)) st) (arg_path a) (arg_output_dir a) of
        (None, st1) \<Rightarrow> (Exit 1, st1)
      | (Some r, st1) \<Rightarrow> (Exit 0, st1))"
  using assms is_file_exists [OF assms] by (simp add: main_def)

lemma main_file_exit:
  assumes "is_file (files st) (arg_path a)"
  shows "fst (main env st a)
     = (if fst (process_file env (say (StartFile (arg_path a)) st) (arg_path a) (arg_output_dir a))
            = None
        then Exit 1 else Exit 0)"
    and "snd (main env st a)
     = snd (process_file env (say (StartFile (arg_path a)) st) (arg_path a) (arg_output_dir a))"
  by (simp_all add: main_file [OF assms] split: prod.splits option.splits)

lemma main_other:
  assumes "path_exists (files st) (arg_path a)" "\<not> is_file (files st) (arg_path a)"
    "\<not> is_dir (files st) (arg_path a)"
  shows "main env st a = (Exit 1, say (ErrNotFileOrDir (arg_path a)) st)"
  using assms by (simp add: main_def)

lemma main_dir_exit:
  assumes "is_dir (files st) (arg_path a)"
  shows "fst (main env st a)
     = (case fst (process_directory env (announce_directory a st) (arg_path a) (arg_output_dir a)
                    (arg_recursive a) (\<not> arg_no_merge a)) of
          Inl e \<Rightarrow> Traceback
        | Inr results \<Rightarrow> if results = [] then Exit 1 else Exit 0)"
  using assms is_dir_exists [OF assms] is_dir_not_file [OF assms]
  by (simp add: main_def Let_def split: prod.splits sum.splits)

section \<open>Directory processing\<close>

text \<open>
  The file at a path is a word list of a set: its text is a sequence of
  LF-terminated lines, strictly ascending, without repetition, and the lines are
  the elements of the set.
\<close>

definition holds_sorted_words :: "filesystem \<Rightarrow> ustring \<Rightarrow> ustring set \<Rightarrow> bool" where
  "holds_sorted_words fs p ws =
     (case fmlookup fs p of
        Some (File (Text t)) \<Rightarrow>
          t = word_list (text_lines t) \<and> sorted_wrt (<) (text_lines t)
          \<and> distinct (text_lines t) \<and> set (text_lines t) = ws
      | _ \<Rightarrow> False)"

text \<open>The path of the merged file, as \<open>process_directory_merged\<close> computes it.\<close>

definition merged_path :: "filesystem \<Rightarrow> ustring \<Rightarrow> ustring \<Rightarrow> ustring" where
  "merged_path fs directory_path output_dir =
     unique_loop fs output_dir (path_name directory_path @ u ''_merged_segmented'')
       (joinpath output_dir (path_name directory_path @ u ''_merged_segmented.txt'')) 1"

lemma holds_sorted_words_render:
  assumes "finite ws" "\<forall>w \<in> ws. LF \<notin> set w"
    "fmlookup fs p = Some (File (Text (render ws)))"
  shows "holds_sorted_words fs p ws"
proof -
  let ?ls = "sorted_list_of_set ws"
  from assms(1) have s: "set ?ls = ws" "distinct ?ls" "sorted_wrt (<) ?ls"
    by (rule sorted_words)+
  with assms(2) have "text_lines (word_list ?ls) = ?ls"
    by (simp add: text_lines_word_list)
  with s assms(3) show ?thesis
    by (simp add: holds_sorted_words_def render_word_list)
qed

lemma holds_sorted_words_mono:
  assumes "holds_sorted_words fs p ws"
    "\<And>q v. fmlookup fs q = Some v \<Longrightarrow> fmlookup fs' q = Some v"
  shows "holds_sorted_words fs' p ws"
proof -
  from assms(1) obtain t where t: "fmlookup fs p = Some (File (Text t))"
    by (auto simp: holds_sorted_words_def split: option.splits node.splits fdata.splits)
  then have "fmlookup fs' p = Some (File (Text t))" by (rule assms(2))
  with t assms(1) show ?thesis by (simp add: holds_sorted_words_def)
qed

lemma file_words_read:
  "file_words env (files st) f
     = (case read_text st f of Inr raw \<Rightarrow> extract_chinese_words (segmenter env) (strip raw)
        | Inl e \<Rightarrow> {})"
  by (simp add: file_words_def read_text_def split: option.splits node.splits fdata.splits)

lemma finite_file_words: "finite (file_words env fs f)"
  by (simp add: file_words_def finite_extract_chinese_words
      split: option.splits node.splits fdata.splits)

lemma file_words_no_LF: "w \<in> file_words env fs f \<Longrightarrow> LF \<notin> set w"
  by (auto simp: file_words_def extract_chinese_words_no_LF
      split: option.splits node.splits fdata.splits)

lemma extract_chinese_words_Nil: "extract_chinese_words c [] = {}"
  by (simp add: extract_chinese_words_def)

lemma reports_append: "reports (xs @ ys) = reports xs @ reports ys"
  by (induction xs) (simp_all add: reports_def map_filter_simps split: option.splits)

lemma reports_single: "reports [m] = (case report_subject m of None \<Rightarrow> [] | Some p \<Rightarrow> [p])"
  by (simp add: reports_def map_filter_simps split: option.splits)

lemma reports_say:
  "reports (console st @ [m])
     = reports (console st) @ (case report_subject m of None \<Rightarrow> [] | Some p \<Rightarrow> [p])"
  by (simp add: reports_append reports_single)

lemma merged_step_effect:
  "\<exists>vars' st'. merged_step env f vars st = (Inr (), vars', st')
     \<and> files st' = files st
     \<and> all_unique_words vars' = all_unique_words vars \<union> file_words env (files st) f
     \<and> reports (console st') = reports (console st) @ [f]"
proof (cases "read_text st f")
  case (Inl e)
  then show ?thesis
    by (cases e) (simp_all add: merged_step_def merged_body_def file_words_read reports_say)
next
  case (Inr raw)
  then show ?thesis
    by (simp add: merged_step_def merged_body_def file_words_read reports_say Let_def
        extract_chinese_words_Nil)
qed

lemma merged_loop_effect:
  "\<exists>vars' st'. merged_loop env tfs vars st = (Inr (), vars', st')
     \<and> files st' = files st
     \<and> all_unique_words vars'
         = all_unique_words vars \<union> (\<Union>f \<in> set tfs. file_words env (files st) f)
     \<and> reports (console st') = reports (console st) @ tfs"
proof (induction tfs arbitrary: vars st)
  case Nil
  show ?case by simp
next
  case (Cons f tfs)
  from merged_step_effect [of env f vars st]
  obtain vars1 st1 where s: "merged_step env f vars st = (Inr (), vars1, st1)"
    "files st1 = files st"
    "all_unique_words vars1 = all_unique_words vars \<union> file_words env (files st) f"
    "reports (console st1) = reports (console st) @ [f]"
    by blast
  from Cons.IH [of vars1 st1]
  obtain vars' st' where l: "merged_loop env tfs vars1 st1 = (Inr (), vars', st')"
    "files st' = files st1"
    "all_unique_words vars'
       = all_unique_words vars1 \<union> (\<Union>f \<in> set tfs. file_words env (files st1) f)"
    "reports (console st') = reports (console st1) @ tfs"
    by blast
  from s l have "merged_loop env (f # tfs) vars st = (Inr (), vars', st')" by simp
  moreover from s l have "files st' = files st" by simp
  moreover from s l have "all_unique_words vars'
      = all_unique_words vars \<union> (\<Union>f \<in> set (f # tfs). file_words env (files st) f)"
    by auto
  moreover from s l have "reports (console st') = reports (console st) @ f # tfs" by simp
  ultimately show ?case by blast
qed

lemma reports_report_duplicates:
  "reports (console (report_duplicates d st)) = reports (console st)"
  by (simp add: report_duplicates_def reports_say)

lemma files_report_duplicates: "files (report_duplicates d st) = files st"
  by (simp add: report_duplicates_def)

lemma merged_path_free: "\<not> path_exists fs (merged_path fs dir od)"
  using unique_loop_first_free [of fs od "path_name dir @ u ''_merged_segmented''"
      "joinpath od (path_name dir @ u ''_merged_segmented.txt'')" 1]
  by (simp add: merged_path_def)

lemma process_directory_merged_outcome:
  fixes env st dir tfs od
  defines "U \<equiv> \<Union>f \<in> set tfs. file_words env (files st) f"
    and "p \<equiv> merged_path (files st) dir od"
    and "r \<equiv> process_directory_merged env st dir tfs od"
  shows "fst r = (if U = {} then Inr []
                  else if denied env p then Inl OtherException
                  else Inr [(p, card U, U)])"
    and "files (snd r) = (if U = {} \<or> denied env p then files st
                          else fmupd p (File (Text (render U))) (files st))"
    and "reports (console (snd r)) = reports (console st) @ tfs"
proof -
  from merged_loop_effect [of env tfs
      "\<lparr>all_unique_words = {}, processed_files = [], successful_files = 0\<rparr>" "say MergeMode st"]
  obtain vars' st' where l: "merged_loop env tfs
        \<lparr>all_unique_words = {}, processed_files = [], successful_files = 0\<rparr> (say MergeMode st)
      = (Inr (), vars', st')"
    "files st' = files st" "all_unique_words vars' = U"
    "reports (console st') = reports (console st) @ tfs"
    by (auto simp: U_def reports_say)
  have pe: "unique_loop (files st') od (path_name dir @ u ''_merged_segmented'')
      (joinpath od (path_name dir @ u ''_merged_segmented.txt'')) (Suc 0) = p"
    by (simp add: p_def merged_path_def l(2))
  have free: "\<not> path_exists (files st') p"
    using merged_path_free [of "files st" dir od] l(2) by (simp add: p_def)
  have w: "write_words env st' p U =
     (if denied env p then Inl OtherException
      else Inr (st'\<lparr>files := fmupd p (File (Text (render U))) (files st')\<rparr>))"
    using free by (rule write_words_fresh)
  have r: "r = (if U = {} then (Inr [], say ErrNothingExtracted st')
        else case write_words env st' p U of
               Inl e \<Rightarrow> (Inl e, st')
             | Inr st2 \<Rightarrow>
                 (Inr [(p, card U, U)],
                  report_duplicates (processed_files vars')
                    (say (MergedSummary (successful_files vars') (length tfs) (card U) p) st2)))"
    unfolding r_def process_directory_merged_def l(1)
    by (simp add: Let_def pe l(3) split: sum.splits)
  show "fst r = (if U = {} then Inr []
                  else if denied env p then Inl OtherException
                  else Inr [(p, card U, U)])"
    by (simp add: r w)
  show "files (snd r) = (if U = {} \<or> denied env p then files st
                          else fmupd p (File (Text (render U))) (files st))"
    using l(2) by (simp add: r w files_report_duplicates)
  show "reports (console (snd r)) = reports (console st) @ tfs"
    using l(4) by (simp add: r w reports_report_duplicates reports_say)
qed

lemma finite_merged_words: "finite (\<Union>f \<in> set tfs. file_words env fs f)"
  by (simp add: finite_file_words)

lemma merged_words_no_LF: "w \<in> (\<Union>f \<in> set tfs. file_words env fs f) \<Longrightarrow> LF \<notin> set w"
  using file_words_no_LF by blast

lemma process_directory_merged_result:
  assumes "fst (process_directory_merged env st dir tfs od) = Inr rs"
  shows "if (\<Union>f \<in> set tfs. file_words env (files st) f) = {} then rs = []
         else rs = [(merged_path (files st) dir od,
                     card (\<Union>f \<in> set tfs. file_words env (files st) f),
                     \<Union>f \<in> set tfs. file_words env (files st) f)]
              \<and> holds_sorted_words (files (snd (process_directory_merged env st dir tfs od)))
                   (merged_path (files st) dir od)
                   (\<Union>f \<in> set tfs. file_words env (files st) f)"
proof -
  define U where "U = (\<Union>f \<in> set tfs. file_words env (files st) f)"
  define p where "p = merged_path (files st) dir od"
  define r where "r = process_directory_merged env st dir tfs od"
  note o = process_directory_merged_outcome [of env st dir tfs od, folded U_def p_def r_def]
  have fin: "finite U" unfolding U_def by (rule finite_merged_words)
  have nolf: "\<forall>w \<in> U. LF \<notin> set w" unfolding U_def using merged_words_no_LF by blast
  have "if U = {} then rs = []
        else rs = [(p, card U, U)] \<and> holds_sorted_words (files (snd r)) p U"
  proof (cases "U = {}")
    case True
    with o(1) assms show ?thesis by (simp add: r_def)
  next
    case False
    from assms have "fst r = Inr rs" by (simp add: r_def)
    with False o(1) have d: "\<not> denied env p" and rs: "rs = [(p, card U, U)]"
      by (auto split: if_splits)
    from False d o(2) have "fmlookup (files (snd r)) p = Some (File (Text (render U)))"
      by simp
    with fin nolf have "holds_sorted_words (files (snd r)) p U"
      by (rule holds_sorted_words_render)
    with False rs show ?thesis by simp
  qed
  then show ?thesis unfolding U_def p_def r_def .
qed

lemma reports_Nil: "reports [] = []"
  by (simp add: reports_def map_filter_simps)

lemma reports_Cons:
  "reports (m # ms) = (case report_subject m of None \<Rightarrow> [] | Some p \<Rightarrow> [p]) @ reports ms"
  by (simp add: reports_def map_filter_simps split: option.splits)

lemmas reports_simps = reports_append reports_Cons reports_Nil

lemma get_unique_output_path_free: "\<not> path_exists fs (get_unique_output_path fs d bf)"
  using unique_loop_first_free [of fs d "stem bf @ u ''_segmented''"
      "joinpath d (stem bf @ u ''_segmented'' @ u ''.txt'')" 1]
  by (simp add: get_unique_output_path_def Let_def)

lemma process_file_effect:
  assumes "process_file env st fp od = (r, st')"
  shows "reports (console st') = reports (console st) @ [fp]"
    and "\<And>q v. fmlookup (files st) q = Some v \<Longrightarrow> fmlookup (files st') q = Some v"
    and "\<And>p n ws. r = Some (p, n, ws) \<Longrightarrow>
            holds_sorted_words (files st') p ws \<and> n = card ws
            \<and> ws = file_words env (files st) fp"
proof -
  have "reports (console st') = reports (console st) @ [fp]
    \<and> (\<forall>q v. fmlookup (files st) q = Some v \<longrightarrow> fmlookup (files st') q = Some v)
    \<and> (\<forall>p n ws. r = Some (p, n, ws) \<longrightarrow>
            holds_sorted_words (files st') p ws \<and> n = card ws
            \<and> ws = file_words env (files st) fp)"
  proof (cases rule: process_file_split [of st fp env od])
    case (unreadable e)
    with assms show ?thesis by (cases e) (auto simp: reports_say)
  next
    case (empty raw)
    with assms show ?thesis by (auto simp: reports_say)
  next
    case (no_words raw)
    with assms show ?thesis by (auto simp: reports_say)
  next
    case (mkdir_fails raw)
    with assms show ?thesis by (auto simp: reports_say)
  next
    case (write_fails raw st1)
    note d = ensure_output_dir_Inr [OF write_fails(4)]
    from write_fails(6) assms have e: "r = None" "st' = say (ErrException fp) st1" by simp_all
    with d(1) have "reports (console st') = reports (console st) @ [fp]"
      by (simp add: reports_say)
    moreover from e d(3) have
      "\<forall>q v. fmlookup (files st) q = Some v \<longrightarrow> fmlookup (files st') q = Some v"
      by simp
    ultimately show ?thesis using e by simp
  next
    case (written raw st1 st2)
    let ?ws = "extract_chinese_words (segmenter env) (strip raw)"
    let ?p = "get_unique_output_path (files st1) od (path_name fp)"
    note d = ensure_output_dir_Inr [OF written(4)]
    have free: "\<not> path_exists (files st1) ?p" by (rule get_unique_output_path_free)
    from written(5) have st2: "st2 = st1\<lparr>files := fmupd ?p (File (Text (render ?ws))) (files st1)\<rparr>"
      by (simp add: write_words_fresh [OF free] split: if_splits)
    from written(6) assms have e: "r = Some (?p, card ?ws, ?ws)"
      "st' = say (WordCount (card ?ws)) (say (Processed fp ?p) st2)"
      by simp_all
    from e(2) st2 d(1) have 1: "reports (console st') = reports (console st) @ [fp]"
      by (simp add: reports_simps)
    have 2: "fmlookup (files st') q = Some v" if q: "fmlookup (files st) q = Some v" for q v
    proof -
      from q have q1: "fmlookup (files st1) q = Some v" by (rule d(3))
      with free have "q \<noteq> ?p" by (auto simp: path_exists_def)
      with q1 e(2) st2 show ?thesis by simp
    qed
    from e(2) st2 have l: "fmlookup (files st') ?p = Some (File (Text (render ?ws)))" by simp
    have fw: "file_words env (files st) fp = ?ws"
      using written(1) by (simp add: file_words_read)
    have "holds_sorted_words (files st') ?p ?ws"
      using finite_extract_chinese_words extract_chinese_words_no_LF l
      by (intro holds_sorted_words_render) blast+
    with 1 2 e(1) fw show ?thesis by simp
  qed
  then show "reports (console st') = reports (console st) @ [fp]"
    and "\<And>q v. fmlookup (files st) q = Some v \<Longrightarrow> fmlookup (files st') q = Some v"
    and "\<And>p n ws. r = Some (p, n, ws) \<Longrightarrow>
            holds_sorted_words (files st') p ws \<and> n = card ws
            \<and> ws = file_words env (files st) fp"
    by blast+
qed

lemma separate_loop_effect:
  assumes "separate_loop env od tfs results processed st = (results', processed', st')"
  shows "reports (console st') = reports (console st) @ tfs
    \<and> (\<forall>q v. fmlookup (files st) q = Some v \<longrightarrow> fmlookup (files st') q = Some v)
    \<and> (\<forall>(p, n, ws) \<in> set results'.
          (p, n, ws) \<in> set results \<or> (holds_sorted_words (files st') p ws \<and> n = card ws))"
  using assms
proof (induction tfs arbitrary: results processed st)
  case Nil
  then show ?case by auto
next
  case (Cons f tfs)
  let ?st1 = "if map_of processed (path_name f) \<noteq> None then say (DuplicateName f) st else st"
  obtain r st2 where pf: "process_file env ?st1 f od = (r, st2)" by (cases "process_file env ?st1 f od")
  note e = process_file_effect [OF pf]
  have c1: "reports (console ?st1) = reports (console st)" by (simp add: reports_say)
  have f1: "files ?st1 = files st" by simp
  obtain results1 processed1 where
    rest: "separate_loop env od tfs results1 processed1 st2 = (results', processed', st')"
    and r1: "set results1 \<subseteq> set results \<union> (case r of None \<Rightarrow> {} | Some x \<Rightarrow> {x})"
  proof (cases r)
    case None
    with Cons.prems pf have "separate_loop env od tfs results processed st2
        = (results', processed', st')"
      by (simp add: Let_def)
    with None that show ?thesis by auto
  next
    case (Some x)
    with Cons.prems pf have "separate_loop env od tfs (results @ [x])
        (dict_bump processed (path_name f)) st2 = (results', processed', st')"
      by (simp add: Let_def)
    with Some that show ?thesis by auto
  qed
  note ih = Cons.IH [OF rest]
  from ih e(1) c1 have 1: "reports (console st') = reports (console st) @ f # tfs" by simp
  have mono2: "fmlookup (files st') q = Some v" if "fmlookup (files st2) q = Some v" for q v
    using ih that by blast
  have mono: "fmlookup (files st') q = Some v" if "fmlookup (files st) q = Some v" for q v
    using that f1 e(2) mono2 by simp
  have 3: "(p, n, ws) \<in> set results \<or> (holds_sorted_words (files st') p ws \<and> n = card ws)"
    if m: "(p, n, ws) \<in> set results'" for p n ws
  proof -
    from ih m have "(p, n, ws) \<in> set results1
        \<or> (holds_sorted_words (files st') p ws \<and> n = card ws)"
      by blast
    then show ?thesis
    proof
      assume "(p, n, ws) \<in> set results1"
      with r1 consider "(p, n, ws) \<in> set results" | "r = Some (p, n, ws)"
        by (auto split: option.splits)
      then show ?thesis
      proof cases
        case 1
        then show ?thesis by simp
      next
        case 2
        from e(3) [OF 2] have "holds_sorted_words (files st2) p ws" "n = card ws" by blast+
        with mono2 show ?thesis using holds_sorted_words_mono by blast
      qed
    next
      assume "holds_sorted_words (files st') p ws \<and> n = card ws"
      then show ?thesis by simp
    qed
  qed
  from 1 mono 3 show ?case by blast
qed

lemma process_directory_separate_effect:
  assumes "process_directory_separate env st tfs od = (rs, st')"
  shows "reports (console st') = reports (console st) @ tfs"
    and "\<And>p n ws. (p, n, ws) \<in> set rs \<Longrightarrow> holds_sorted_words (files st') p ws \<and> n = card ws"
proof -
  obtain processed st1 where l: "separate_loop env od tfs [] [] st = (rs, processed, st1)"
    and s: "st' = report_duplicates processed st1"
    using assms by (auto simp: process_directory_separate_def split: prod.splits)
  note e = separate_loop_effect [OF l]
  from e s show "reports (console st') = reports (console st) @ tfs"
    by (simp add: reports_report_duplicates)
  show "holds_sorted_words (files st') p ws \<and> n = card ws" if "(p, n, ws) \<in> set rs" for p n ws
    using e that s by (auto simp: files_report_duplicates)
qed


lemma process_directory_merged_same_words:
  assumes "(\<Union>f \<in> set tfs. file_words env (files st) f)
            = (\<Union>f \<in> set tfs'. file_words env' (files st) f)"
    "denied env = denied env'"
  shows "fst (process_directory_merged env st dir tfs od)
           = fst (process_directory_merged env' st dir tfs' od)
    \<and> files (snd (process_directory_merged env st dir tfs od))
           = files (snd (process_directory_merged env' st dir tfs' od))"
  using assms
  by (simp only: process_directory_merged_outcome(1,2))

section \<open>Example inputs\<close>

definition fs_two_taken :: filesystem where
  "fs_two_taken = fmupd (u ''raw/a_segmented.txt'') (File (Text []))
                   (fmupd (u ''raw/a_segmented_1.txt'') (File (Text []))
                   (fmupd (u ''raw'') Dir fmempty))"

lemmas path_eval = get_unique_output_path_def stem_def path_name_def rfind_dot_def u_def
  joinpath_def unique_loop.simps path_exists_def suffixed_def str_nat.simps

text \<open>A segmenter for the examples: it cuts the text at every space.\<close>

fun split_spaces :: "ustring \<Rightarrow> ustring \<Rightarrow> ustring list" where
  "split_spaces cur [] = [cur]"
| "split_spaces cur (c # cs) =
     (if c = 32 then cur # split_spaces [] cs else split_spaces (cur @ [c]) cs)"

definition example_env :: env where
  "example_env =
     \<lparr>segmenter = split_spaces [],
      globber = (\<lambda>d pat. if d = u ''in'' \<and> pat = u ''*.txt''
                         then [u ''in/a.txt'', u ''in/b.txt'', u ''in/empty.txt'', u ''in/bad.txt'']
                         else []),
      set_order = id,
      denied = (\<lambda>_. False)\<rparr>"

definition example_fs :: filesystem where
  "example_fs = fmap_of_list
     [(u ''in'', Dir),
      (u ''in/a.txt'',
       File (Text ([0x4F60, 0x597D, 32] @ u ''hello'' @ [32, 0x4E16, 0x754C, 32, 0x4F60, 0x597D, 10]))),
      (u ''in/b.txt'', File (Text [0x4F60, 0x597D, 32, 0x7532])),
      (u ''in/empty.txt'', File (Text [32, 10])),
      (u ''in/bad.txt'', File Undecodable),
      (u ''dev'', Special)]"

definition example_state :: state where
  "example_state = \<lparr>files = example_fs, console = []\<rparr>"

lemmas program_eval = process_file_def process_file_body_def read_text_def
  ensure_output_dir_def write_words_def extract_chinese_words_def strip_def isspace_def
  is_chinese_word_def chinese_char_def at_dollar_def LF_def render_def say_def Let_def
  example_env_def example_fs_def example_state_def is_file_def is_dir_def

lemma ex_empty: "read_text example_state (u ''in/empty.txt'') = Inr [32, 10] \<and> strip [32, 10] = []"
  by (simp add: program_eval u_def)

lemma ex_bad: "read_text example_state (u ''in/bad.txt'') = Inl UnicodeDecodeError"
  by (simp add: program_eval u_def)

lemma ex_a: "process_file example_env example_state (u ''in/a.txt'') (u ''raw'')
   = (Some (u ''raw/a_segmented.txt'', 2, {[0x4E16, 0x754C], [0x4F60, 0x597D]}),
      \<lparr>files = fmupd (u ''raw/a_segmented.txt'')
                 (File (Text [0x4E16, 0x754C, 10, 0x4F60, 0x597D, 10]))
                 (fmupd (u ''raw'') Dir example_fs),
       console = [Processed (u ''in/a.txt'') (u ''raw/a_segmented.txt''), WordCount 2]\<rparr>)"
  by (simp add: program_eval path_eval insert_commute)

definition example_args :: "ustring \<Rightarrow> bool \<Rightarrow> args" where
  "example_args p no_merge =
     \<lparr>arg_path = p, arg_output_dir = u ''raw'', arg_recursive = False, arg_no_merge = no_merge,
      arg_verbose = False\<rparr>"

lemma ex_dev:
  "path_exists example_fs (u ''dev'') \<and> \<not> is_file example_fs (u ''dev'')
   \<and> \<not> is_dir example_fs (u ''dev'')"
  by (simp add: example_fs_def path_exists_def is_file_def is_dir_def u_def)

definition example_files :: "ustring list" where
  "example_files = [u ''in/a.txt'', u ''in/b.txt'', u ''in/empty.txt'', u ''in/bad.txt'']"

lemma ex_words_a:
  "file_words example_env example_fs (u ''in/a.txt'') = {[0x4E16, 0x754C], [0x4F60, 0x597D]}"
  by (simp add: file_words_def program_eval u_def insert_commute)

lemma ex_words_b:
  "file_words example_env example_fs (u ''in/b.txt'') = {[0x4F60, 0x597D], [0x7532]}"
  by (simp add: file_words_def program_eval u_def insert_commute)

lemma ex_words_empty: "file_words example_env example_fs (u ''in/empty.txt'') = {}"
  by (simp add: file_words_def program_eval u_def)

lemma ex_words_bad: "file_words example_env example_fs (u ''in/bad.txt'') = {}"
  by (simp add: file_words_def program_eval u_def)

lemma ex_union:
  "(\<Union>f \<in> set example_files. file_words example_env (files example_state) f)
     = {[0x4E16, 0x754C], [0x4F60, 0x597D], [0x7532]}"
proof -
  have "files example_state = example_fs" by (simp add: example_state_def)
  then show ?thesis
    by (auto simp: example_files_def ex_words_a ex_words_b ex_words_empty ex_words_bad)
qed

lemma ex_merged_path:
  "merged_path (files example_state) (u ''in'') (u ''raw'') = u ''raw/in_merged_segmented.txt''"
  by (simp add: merged_path_def example_state_def example_fs_def path_eval)

lemma ex_merged_fst:
  "fst (process_directory_merged example_env example_state (u ''in'') example_files (u ''raw''))
     = Inr [(u ''raw/in_merged_segmented.txt'', 3, {[0x4E16, 0x754C], [0x4F60, 0x597D], [0x7532]})]"
proof -
  have d: "\<not> denied example_env (u ''raw/in_merged_segmented.txt'')"
    by (simp add: example_env_def)
  note o = process_directory_merged_outcome(1)
    [of example_env example_state "u ''in''" example_files "u ''raw''",
      unfolded ex_union ex_merged_path]
  with d show ?thesis by simp
qed

lemma ex_separate_fst:
  "fst (process_directory_separate example_env example_state example_files (u ''raw''))
     = [(u ''raw/a_segmented.txt'', 2, {[0x4E16, 0x754C], [0x4F60, 0x597D]}),
        (u ''raw/b_segmented.txt'', 2, {[0x4F60, 0x597D], [0x7532]})]"
  by (simp add: process_directory_separate_def example_files_def program_eval path_eval
      dict_bump_def insert_commute)



section \<open>The claims\<close>

text \<open>
  C1. The claim reads: \<open>is_chinese_word T\<close> is true if and only if \<open>T\<close> is non-empty and
  every character of \<open>T\<close> lies in one of the three ranges, the whole token having to
  match. The code accepts a token of Chinese characters followed by one final
  newline, because \<open>$\<close> also matches before a trailing newline: the token U+4E2D
  U+000A passes the filter although its second character is in none of the ranges.
\<close>

theorem is_chinese_word_trailing_newline:
  "is_chinese_word [0x4E2D, 0x0A] \<and> \<not> list_all chinese_char [0x4E2D, 0x0A]"
  by (simp add: is_chinese_word_def chinese_char_def at_dollar_def LF_def)

text \<open>
  C9. Every element of the set that \<open>extract_chinese_words\<close> returns is non-empty,
  is its own stripped form, has no whitespace at either end and no newline
  anywhere, and passes \<open>is_chinese_word\<close>; for the empty content the set is empty.
\<close>

theorem extract_chinese_words_elements:
  "(\<forall>x \<in> extract_chinese_words jieba_cut content.
      x \<noteq> [] \<and> strip x = x \<and> \<not> isspace (hd x) \<and> \<not> isspace (last x) \<and> LF \<notin> set x
      \<and> is_chinese_word x)
   \<and> extract_chinese_words jieba_cut [] = {}"
proof -
  have "x \<noteq> [] \<and> strip x = x \<and> \<not> isspace (hd x) \<and> \<not> isspace (last x) \<and> LF \<notin> set x
      \<and> is_chinese_word x" if x: "x \<in> extract_chinese_words jieba_cut content" for x
  proof -
    from x have a: "x \<noteq> []" "strip x = x" "is_chinese_word x"
      using extract_chinese_words_chinese by blast+
    from a(1,2) strip_eq_Nil_or_ends [of x]
    have "\<not> isspace (hd x)" "\<not> isspace (last x)" by simp_all
    with a x show ?thesis using extract_chinese_words_no_LF by blast
  qed
  moreover have "extract_chinese_words jieba_cut [] = {}"
    by (simp add: extract_chinese_words_def)
  ultimately show ?thesis by blast
qed

theorem extract_chinese_words_elements_witness:
  "extract_chinese_words
       (\<lambda>_. [[0x4F60, 0x597D], u ''hello'', [32], [0x4E16, 0x754C, 10], [0x4F60, 0x597D]])
       [0x4F60]
     = {[0x4F60, 0x597D], [0x4E16, 0x754C]}
   \<and> strip [0x4F60, 0x597D] = [0x4F60, 0x597D] \<and> is_chinese_word [0x4F60, 0x597D]
   \<and> LF \<notin> set [0x4F60, 0x597D]
   \<and> strip [0x4E16, 0x754C] = [0x4E16, 0x754C] \<and> is_chinese_word [0x4E16, 0x754C]
   \<and> LF \<notin> set [0x4E16, 0x754C]"
proof -
  let ?cut = "\<lambda>_::ustring.
    [[0x4F60, 0x597D], u ''hello'', [32], [0x4E16, 0x754C, 10], [0x4F60, 0x597D::nat]]"
  have e: "extract_chinese_words ?cut [0x4F60] = {[0x4F60, 0x597D], [0x4E16, 0x754C]}"
    by (simp add: extract_chinese_words_def strip_def isspace_def is_chinese_word_def
        chinese_char_def at_dollar_def LF_def u_def insert_commute)
  from extract_chinese_words_elements [of ?cut "[0x4F60]"]
  have "\<forall>x \<in> {[0x4F60, 0x597D], [0x4E16, 0x754C]}.
      x \<noteq> [] \<and> strip x = x \<and> \<not> isspace (hd x) \<and> \<not> isspace (last x) \<and> LF \<notin> set x
      \<and> is_chinese_word x"
    unfolding e by blast
  with e show ?thesis by blast
qed

text \<open>
  C4. The path that \<open>get_unique_output_path\<close> returns does not exist in the output
  directory, so writing to it overwrites nothing. It is \<open>{base}_segmented.txt\<close> when
  that is free, and otherwise the candidate \<open>{base}_segmented_k.txt\<close> with the least
  \<open>k\<close> from 1 on that is free. Once the returned path exists, the next call returns a
  different path with a larger suffix. The loop for the merged file of
  \<open>process_directory_merged\<close> behaves in the same way.
\<close>

theorem get_unique_output_path_fresh:
  "\<not> path_exists fs (get_unique_output_path fs d bf)
   \<and> (if path_exists fs (joinpath d (stem bf @ u ''_segmented.txt''))
      then \<exists>k \<ge> 1. get_unique_output_path fs d bf
                      = joinpath d (stem bf @ u ''_segmented_'' @ str_nat k @ u ''.txt'')
            \<and> (\<forall>j. 1 \<le> j \<and> j < k \<longrightarrow>
                  path_exists fs (joinpath d (stem bf @ u ''_segmented_'' @ str_nat j @ u ''.txt'')))
      else get_unique_output_path fs d bf = joinpath d (stem bf @ u ''_segmented.txt''))
   \<and> get_unique_output_path (fmupd (get_unique_output_path fs d bf) v fs) d bf
        \<noteq> get_unique_output_path fs d bf
   \<and> (\<exists>k' \<ge> 1. get_unique_output_path (fmupd (get_unique_output_path fs d bf) v fs) d bf
                    = joinpath d (stem bf @ u ''_segmented_'' @ str_nat k' @ u ''.txt'')
          \<and> (get_unique_output_path fs d bf = joinpath d (stem bf @ u ''_segmented.txt'')
              \<or> (\<exists>k \<ge> 1. k < k' \<and> get_unique_output_path fs d bf
                    = joinpath d (stem bf @ u ''_segmented_'' @ str_nat k @ u ''.txt''))))
   \<and> \<not> path_exists fs (unique_loop fs d (dn @ u ''_merged_segmented'')
                          (joinpath d (dn @ u ''_merged_segmented.txt'')) 1)
   \<and> (if path_exists fs (joinpath d (dn @ u ''_merged_segmented.txt''))
      then \<exists>k \<ge> 1. unique_loop fs d (dn @ u ''_merged_segmented'')
                          (joinpath d (dn @ u ''_merged_segmented.txt'')) 1
                      = joinpath d (dn @ u ''_merged_segmented_'' @ str_nat k @ u ''.txt'')
            \<and> (\<forall>j. 1 \<le> j \<and> j < k \<longrightarrow>
                  path_exists fs (joinpath d (dn @ u ''_merged_segmented_'' @ str_nat j @ u ''.txt'')))
      else unique_loop fs d (dn @ u ''_merged_segmented'')
                          (joinpath d (dn @ u ''_merged_segmented.txt'')) 1
             = joinpath d (dn @ u ''_merged_segmented.txt''))"
proof -
  let ?b = "stem bf @ u ''_segmented''"
  let ?p0 = "joinpath d (stem bf @ u ''_segmented.txt'')"
  have g: "unique_loop fs' d ?b ?p0 1 = get_unique_output_path fs' d bf" for fs'
    by (simp add: get_unique_output_path_def Let_def u_def)
  note first = unique_loop_first_free [of fs d ?b ?p0 1, unfolded suffixed_segmented g]
  note again = unique_loop_repeat [OF refl refl, of fs d ?b ?p0 1 v,
      unfolded suffixed_segmented g]
  let ?mb = "dn @ u ''_merged_segmented''"
  let ?m0 = "joinpath d (dn @ u ''_merged_segmented.txt'')"
  note merged = unique_loop_first_free [of fs d ?mb ?m0 1, unfolded suffixed_merged_segmented]
  from first again merged show ?thesis by blast
qed

theorem get_unique_output_path_fresh_witness:
  "get_unique_output_path fs_two_taken (u ''raw'') (u ''a.md'') = u ''raw/a_segmented_2.txt''
   \<and> \<not> path_exists fs_two_taken (u ''raw/a_segmented_2.txt'')
   \<and> get_unique_output_path (fmupd (u ''raw/a_segmented_2.txt'') Dir fs_two_taken) (u ''raw'') (u ''a.md'')
       \<noteq> u ''raw/a_segmented_2.txt''"
proof -
  have e: "get_unique_output_path fs_two_taken (u ''raw'') (u ''a.md'') = u ''raw/a_segmented_2.txt''"
    by (simp add: fs_two_taken_def path_eval)
  from get_unique_output_path_fresh [of fs_two_taken "u ''raw''" "u ''a.md''" Dir]
  show ?thesis unfolding e by simp
qed

text \<open>
  C5. \<open>process_file\<close> returns no result exactly when the file does not decode as
  UTF-8, its content is empty after stripping, no Chinese word is extracted, or an
  unexpected exception occurs (the file cannot be opened, the output directory
  cannot be created, or the output file cannot be written). Then its last console
  message reports the case for this file. In every other case it returns the
  output path, the number of words and the word set.
\<close>

theorem process_file_none_iff:
  "(fst (process_file env st fp od) = None \<longleftrightarrow>
      read_text st fp = Inl UnicodeDecodeError
      \<or> (\<exists>raw. read_text st fp = Inr raw \<and> strip raw = [])
      \<or> (\<exists>raw. read_text st fp = Inr raw
              \<and> extract_chinese_words (segmenter env) (strip raw) = {})
      \<or> read_text st fp = Inl OtherException
      \<or> (\<exists>raw. read_text st fp = Inr raw
              \<and> extract_chinese_words (segmenter env) (strip raw) \<noteq> {}
              \<and> (ensure_output_dir env st od = Inl OtherException
                   \<or> (\<exists>st1. ensure_output_dir env st od = Inr st1
                         \<and> write_words env st1
                               (get_unique_output_path (files st1) od (path_name fp))
                               (extract_chinese_words (segmenter env) (strip raw))
                             = Inl OtherException))))
   \<and> (fst (process_file env st fp od) = None \<longrightarrow>
        (\<exists>ms. console (snd (process_file env st fp od)) = console st @ [ms]
          \<and> ms \<in> {ErrEncoding fp, WarnEmpty fp, WarnNoWords fp, ErrException fp}))
   \<and> (fst (process_file env st fp od) \<noteq> None \<longrightarrow>
        (\<exists>raw st1. read_text st fp = Inr raw \<and> ensure_output_dir env st od = Inr st1
          \<and> fst (process_file env st fp od)
              = Some (get_unique_output_path (files st1) od (path_name fp),
                      card (extract_chinese_words (segmenter env) (strip raw)),
                      extract_chinese_words (segmenter env) (strip raw))))"
proof (cases rule: process_file_split [of st fp env od])
  case (unreadable e)
  then show ?thesis by (cases e) auto
next
  case (empty raw)
  then show ?thesis by auto
next
  case (no_words raw)
  then show ?thesis by auto
next
  case (mkdir_fails raw)
  then show ?thesis by auto
next
  case (write_fails raw st1)
  moreover from write_fails(4) have "console st1 = console st"
    by (rule ensure_output_dir_Inr)
  ultimately show ?thesis by auto
next
  case (written raw st1 st2)
  then show ?thesis by auto
qed

theorem process_file_none_iff_witness:
  "fst (process_file example_env example_state (u ''in/empty.txt'') (u ''raw'')) = None
   \<and> fst (process_file example_env example_state (u ''in/bad.txt'') (u ''raw'')) = None
   \<and> fst (process_file example_env example_state (u ''in/a.txt'') (u ''raw''))
       = Some (u ''raw/a_segmented.txt'', 2, {[0x4E16, 0x754C], [0x4F60, 0x597D]})"
proof -
  have "\<exists>raw. read_text example_state (u ''in/empty.txt'') = Inr raw \<and> strip raw = []"
    using ex_empty by blast
  with process_file_none_iff [of example_env example_state "u ''in/empty.txt''" "u ''raw''"]
  have 1: "fst (process_file example_env example_state (u ''in/empty.txt'') (u ''raw'')) = None"
    by blast
  from process_file_none_iff [of example_env example_state "u ''in/bad.txt''" "u ''raw''"] ex_bad
  have 2: "fst (process_file example_env example_state (u ''in/bad.txt'') (u ''raw'')) = None"
    by blast
  from 1 2 ex_a show ?thesis by simp
qed

text \<open>
  C7. As the claim reads, the process ends with status 1 exactly when the input path
  does not exist, single-file processing returns no result, or directory processing
  yields no results. That fails for a path that exists and is neither a regular
  file nor a directory: \<open>main\<close> has a branch of its own for it and ends with
  status 1 there, as the counterexample shows. What holds: the status is 1 exactly
  when the path does not exist, or exists and is neither a regular file nor a
  directory, or single-file processing returns no result, or directory processing
  yields no results, or directory processing ends with an exception that nothing
  catches (the output directory cannot be created, or the merged file cannot be
  written); in every other case the status is 0.
\<close>

theorem main_exit_code:
  "(exit_code (fst (main env st a)) = 1 \<longleftrightarrow>
      \<not> path_exists (files st) (arg_path a)
      \<or> (path_exists (files st) (arg_path a) \<and> \<not> is_file (files st) (arg_path a)
          \<and> \<not> is_dir (files st) (arg_path a))
      \<or> (is_file (files st) (arg_path a)
          \<and> fst (process_file env (say (StartFile (arg_path a)) st) (arg_path a)
                   (arg_output_dir a)) = None)
      \<or> (is_dir (files st) (arg_path a)
          \<and> fst (process_directory env (announce_directory a st) (arg_path a) (arg_output_dir a)
                   (arg_recursive a) (\<not> arg_no_merge a)) = Inr [])
      \<or> (is_dir (files st) (arg_path a)
          \<and> (\<exists>e. fst (process_directory env (announce_directory a st) (arg_path a)
                        (arg_output_dir a) (arg_recursive a) (\<not> arg_no_merge a)) = Inl e)))
   \<and> (exit_code (fst (main env st a)) = 0 \<or> exit_code (fst (main env st a)) = 1)"
proof (cases "path_exists (files st) (arg_path a)")
  case False
  then show ?thesis by (simp add: main_missing)
next
  case ex: True
  show ?thesis
  proof (cases "is_file (files st) (arg_path a)")
    case True
    with ex is_dir_not_file [of "files st" "arg_path a"] show ?thesis
      by (auto simp: main_file_exit(1))
  next
    case nf: False
    show ?thesis
    proof (cases "is_dir (files st) (arg_path a)")
      case False
      with ex nf show ?thesis by (simp add: main_other)
    next
      case True
      with ex nf show ?thesis
        by (auto simp: main_dir_exit split: sum.splits)
    qed
  qed
qed

theorem main_exit_code_special_counterexample:
  "\<not> (exit_code (fst (main example_env example_state (example_args (u ''dev'') False))) = 1 \<longleftrightarrow>
        \<not> path_exists (files example_state) (u ''dev'')
        \<or> (is_file (files example_state) (u ''dev'')
            \<and> fst (process_file example_env (say (StartFile (u ''dev'')) example_state)
                     (u ''dev'') (u ''raw'')) = None)
        \<or> (is_dir (files example_state) (u ''dev'')
            \<and> fst (process_directory example_env
                     (announce_directory (example_args (u ''dev'') False) example_state)
                     (u ''dev'') (u ''raw'') False True) = Inr []))"
proof -
  have f: "files example_state = example_fs" by (simp add: example_state_def)
  have "main example_env example_state (example_args (u ''dev'') False)
      = (Exit 1, say (ErrNotFileOrDir (u ''dev'')) example_state)"
    using ex_dev by (simp add: main_other f example_args_def)
  then have "exit_code (fst (main example_env example_state (example_args (u ''dev'') False))) = 1"
    by simp
  with ex_dev f show ?thesis by simp
qed

theorem main_exit_code_witness:
  "exit_code (fst (main example_env example_state (example_args (u ''dev'') False))) = 1
   \<and> exit_code (fst (main example_env example_state (example_args (u ''in/empty.txt'') False))) = 1
   \<and> exit_code (fst (main example_env example_state (example_args (u ''in/a.txt'') False))) = 0"
proof -
  have f: "files example_state = example_fs" by (simp add: example_state_def)
  have p: "arg_path (example_args q m) = q" "arg_output_dir (example_args q m) = u ''raw''" for q m
    by (simp_all add: example_args_def)
  from main_exit_code [of example_env example_state "example_args (u ''dev'') False"] ex_dev
  have 1: "exit_code (fst (main example_env example_state (example_args (u ''dev'') False))) = 1"
    by (simp add: f p)
  have e: "is_file example_fs (u ''in/empty.txt'')"
    by (simp add: example_fs_def is_file_def u_def)
  have "read_text (say (StartFile (u ''in/empty.txt'')) example_state) (u ''in/empty.txt'')
          = Inr [32, 10]"
    using ex_empty by simp
  with ex_empty
  have n: "fst (process_file example_env (say (StartFile (u ''in/empty.txt'')) example_state)
                 (u ''in/empty.txt'') (u ''raw'')) = None"
    by (simp add: process_file_empty)
  from main_exit_code [of example_env example_state "example_args (u ''in/empty.txt'') False"] e n
  have 2: "exit_code (fst (main example_env example_state
             (example_args (u ''in/empty.txt'') False))) = 1"
    by (simp add: f p)
  have a: "is_file example_fs (u ''in/a.txt'')" "path_exists example_fs (u ''in/a.txt'')"
    "\<not> is_dir example_fs (u ''in/a.txt'')"
    by (simp_all add: example_fs_def is_file_def is_dir_def path_exists_def u_def)
  have s: "fst (process_file example_env (say (StartFile (u ''in/a.txt'')) example_state)
                 (u ''in/a.txt'') (u ''raw'')) \<noteq> None"
    by (simp add: program_eval path_eval insert_commute)
  from main_exit_code [of example_env example_state "example_args (u ''in/a.txt'') False"] a s
  have 3: "exit_code (fst (main example_env example_state
             (example_args (u ''in/a.txt'') False))) = 0"
    by (auto simp: f p)
  from 1 2 3 show ?thesis by simp
qed

text \<open>
  C8. For an input file whose content is empty after stripping, \<open>process_file\<close>
  returns no result and leaves the file system as it was (no output file and no
  output directory is created), and \<open>main\<close> on that file ends with status 1, the file
  system again unchanged.
\<close>

theorem empty_file_no_result:
  assumes "fmlookup (files st) (arg_path a) = Some (File (Text raw))" "strip raw = []"
  shows "fst (process_file env st (arg_path a) (arg_output_dir a)) = None
    \<and> files (snd (process_file env st (arg_path a) (arg_output_dir a))) = files st
    \<and> fst (main env st a) = Exit 1
    \<and> exit_code (fst (main env st a)) = 1
    \<and> files (snd (main env st a)) = files st"
proof -
  from assms(1) have r: "read_text st' (arg_path a) = Inr raw" if "files st' = files st" for st'
    using that by (simp add: read_text_Inr_iff)
  have pf: "process_file env st' (arg_path a) (arg_output_dir a)
      = (None, say (WarnEmpty (arg_path a)) st')" if "files st' = files st" for st'
    using r [OF that] assms(2) by (rule process_file_empty)
  from assms(1) have isf: "is_file (files st) (arg_path a)" by (simp add: is_file_def)
  have m: "main env st a
      = (Exit 1, say (WarnEmpty (arg_path a)) (say (StartFile (arg_path a)) st))"
    by (simp add: main_file [OF isf] pf)
  from pf [of st] m show ?thesis by simp
qed

theorem empty_file_no_result_witness:
  "fst (process_file example_env example_state (u ''in/empty.txt'') (u ''raw'')) = None
   \<and> files (snd (process_file example_env example_state (u ''in/empty.txt'') (u ''raw'')))
       = example_fs
   \<and> exit_code (fst (main example_env example_state (example_args (u ''in/empty.txt'') False))) = 1
   \<and> files (snd (main example_env example_state (example_args (u ''in/empty.txt'') False)))
       = example_fs"
proof -
  have l: "fmlookup (files example_state) (arg_path (example_args (u ''in/empty.txt'') False))
      = Some (File (Text [32, 10]))"
    by (simp add: example_state_def example_fs_def example_args_def u_def)
  have s: "strip [32, 10] = []" using ex_empty by simp
  from empty_file_no_result [OF l s, of example_env]
  show ?thesis by (simp add: example_args_def example_state_def)
qed

text \<open>
  C2. After every successful run the written output file holds every word of the
  returned word set exactly once, one word on each line, every line ended by LF,
  the lines in strictly ascending code-point order. This holds for the file that
  \<open>process_file\<close> writes (whose word set is the set extracted from the stripped
  content of the input file), for the merged file of \<open>process_directory_merged\<close>, and
  for every file that \<open>process_directory_separate\<close> reports, in the file system as it
  is when the whole run has ended.
\<close>

theorem written_word_lists:
  "(process_file env st fp od = (Some (p, n, ws), st') \<longrightarrow>
      holds_sorted_words (files st') p ws \<and> n = card ws \<and> ws = file_words env (files st) fp)
   \<and> (process_directory_merged env st dir tfs od = (Inr rs, st') \<and> (p, n, ws) \<in> set rs \<longrightarrow>
      holds_sorted_words (files st') p ws \<and> n = card ws)
   \<and> (process_directory_separate env st tfs od = (rs, st') \<and> (p, n, ws) \<in> set rs \<longrightarrow>
      holds_sorted_words (files st') p ws \<and> n = card ws)"
proof -
  have 1: "holds_sorted_words (files st') p ws \<and> n = card ws
      \<and> ws = file_words env (files st) fp"
    if "process_file env st fp od = (Some (p, n, ws), st')"
    using process_file_effect(3) [OF that refl] by blast
  have 2: "holds_sorted_words (files st') p ws \<and> n = card ws"
    if a: "process_directory_merged env st dir tfs od = (Inr rs, st') \<and> (p, n, ws) \<in> set rs"
  proof -
    from a have "fst (process_directory_merged env st dir tfs od) = Inr rs" by simp
    from process_directory_merged_result [OF this] a show ?thesis
      by (auto split: if_splits)
  qed
  have 3: "holds_sorted_words (files st') p ws \<and> n = card ws"
    if "process_directory_separate env st tfs od = (rs, st') \<and> (p, n, ws) \<in> set rs"
    using that process_directory_separate_effect(2) by blast
  from 1 2 3 show ?thesis by blast
qed

theorem written_word_lists_witness:
  "holds_sorted_words
     (files (snd (process_file example_env example_state (u ''in/a.txt'') (u ''raw''))))
     (u ''raw/a_segmented.txt'') {[0x4E16, 0x754C], [0x4F60, 0x597D]}
   \<and> holds_sorted_words
     (files (snd (process_directory_merged example_env example_state (u ''in'') example_files
                   (u ''raw''))))
     (u ''raw/in_merged_segmented.txt'') {[0x4E16, 0x754C], [0x4F60, 0x597D], [0x7532]}
   \<and> holds_sorted_words
     (files (snd (process_directory_separate example_env example_state example_files (u ''raw''))))
     (u ''raw/b_segmented.txt'') {[0x4F60, 0x597D], [0x7532]}"
proof -
  let ?a = "process_file example_env example_state (u ''in/a.txt'') (u ''raw'')"
  let ?m = "process_directory_merged example_env example_state (u ''in'') example_files (u ''raw'')"
  let ?s = "process_directory_separate example_env example_state example_files (u ''raw'')"
  have a: "?a = (Some (u ''raw/a_segmented.txt'', 2, {[0x4E16, 0x754C], [0x4F60, 0x597D]}), snd ?a)"
    using ex_a by simp
  have m: "?m = (Inr [(u ''raw/in_merged_segmented.txt'', 3,
                        {[0x4E16, 0x754C], [0x4F60, 0x597D], [0x7532]})], snd ?m)
      \<and> (u ''raw/in_merged_segmented.txt'', 3, {[0x4E16, 0x754C], [0x4F60, 0x597D], [0x7532]})
          \<in> set [(u ''raw/in_merged_segmented.txt'', 3,
                    {[0x4E16, 0x754C], [0x4F60, 0x597D], [0x7532]})]"
    using ex_merged_fst by (simp add: prod_eq_iff)
  have s: "?s = ([(u ''raw/a_segmented.txt'', 2, {[0x4E16, 0x754C], [0x4F60, 0x597D]}),
                  (u ''raw/b_segmented.txt'', 2, {[0x4F60, 0x597D], [0x7532]})], snd ?s)
      \<and> (u ''raw/b_segmented.txt'', 2, {[0x4F60, 0x597D], [0x7532]})
          \<in> set [(u ''raw/a_segmented.txt'', 2, {[0x4E16, 0x754C], [0x4F60, 0x597D]}),
                   (u ''raw/b_segmented.txt'', 2, {[0x4F60, 0x597D], [0x7532]})]"
    using ex_separate_fst by (simp add: prod_eq_iff)
  from a written_word_lists
    [where env = example_env and st = example_state and fp = "u ''in/a.txt''"
      and od = "u ''raw''" and p = "u ''raw/a_segmented.txt''" and n = 2
      and ws = "{[0x4E16, 0x754C], [0x4F60, 0x597D]}" and st' = "snd ?a"]
  have 1: "holds_sorted_words (files (snd ?a)) (u ''raw/a_segmented.txt'')
      {[0x4E16, 0x754C], [0x4F60, 0x597D]}"
    by blast
  from m written_word_lists
    [where env = example_env and st = example_state and dir = "u ''in''"
      and tfs = example_files and od = "u ''raw''"
      and p = "u ''raw/in_merged_segmented.txt''" and n = 3
      and ws = "{[0x4E16, 0x754C], [0x4F60, 0x597D], [0x7532]}" and st' = "snd ?m"
      and rs = "[(u ''raw/in_merged_segmented.txt'', 3,
                  {[0x4E16, 0x754C], [0x4F60, 0x597D], [0x7532]})]"]
  have 2: "holds_sorted_words (files (snd ?m)) (u ''raw/in_merged_segmented.txt'')
      {[0x4E16, 0x754C], [0x4F60, 0x597D], [0x7532]}"
    by blast
  from s written_word_lists
    [where env = example_env and st = example_state and tfs = example_files and od = "u ''raw''"
      and p = "u ''raw/b_segmented.txt''" and n = 2 and ws = "{[0x4F60, 0x597D], [0x7532]}"
      and st' = "snd ?s"
      and rs = "[(u ''raw/a_segmented.txt'', 2, {[0x4E16, 0x754C], [0x4F60, 0x597D]}),
                 (u ''raw/b_segmented.txt'', 2, {[0x4F60, 0x597D], [0x7532]})]"]
  have 3: "holds_sorted_words (files (snd ?s)) (u ''raw/b_segmented.txt'')
      {[0x4F60, 0x597D], [0x7532]}"
    by blast
  from 1 2 3 show ?thesis by blast
qed





text \<open>
  C10. The merged result does not depend on the order in which the files are
  processed: two lists with the same files (equal as multisets) give the same
  result and the same file system. The same holds for \<open>process_directory\<close> in merged
  mode under any two orders in which \<open>list(set(...))\<close> may yield the discovered
  files.
\<close>

theorem merged_order_independent:
  "(mset tfs = mset tfs' \<longrightarrow>
      fst (process_directory_merged env st dir tfs od)
        = fst (process_directory_merged env st dir tfs' od)
      \<and> files (snd (process_directory_merged env st dir tfs od))
        = files (snd (process_directory_merged env st dir tfs' od)))
   \<and> ((\<forall>xs. mset (set_order env xs) = mset xs) \<and> (\<forall>xs. mset (order' xs) = mset xs) \<longrightarrow>
      fst (process_directory env st dir od recursive True)
        = fst (process_directory (env\<lparr>set_order := order'\<rparr>) st dir od recursive True)
      \<and> files (snd (process_directory env st dir od recursive True))
        = files (snd (process_directory (env\<lparr>set_order := order'\<rparr>) st dir od recursive True)))"
proof -
  have 1: "fst (process_directory_merged env st dir tfs od)
        = fst (process_directory_merged env st dir tfs' od)
      \<and> files (snd (process_directory_merged env st dir tfs od))
        = files (snd (process_directory_merged env st dir tfs' od))"
    if "mset tfs = mset tfs'"
  proof -
    from that have "set tfs = set tfs'" by (rule mset_eq_setD)
    then have "(\<Union>f \<in> set tfs. file_words env (files st) f)
        = (\<Union>f \<in> set tfs'. file_words env (files st) f)"
      by simp
    then show ?thesis by (rule process_directory_merged_same_words) simp
  qed
  let ?env' = "env\<lparr>set_order := order'\<rparr>"
  have 2: "fst (process_directory env st dir od recursive True)
        = fst (process_directory ?env' st dir od recursive True)
      \<and> files (snd (process_directory env st dir od recursive True))
        = files (snd (process_directory ?env' st dir od recursive True))"
    if perm: "(\<forall>xs. mset (set_order env xs) = mset xs) \<and> (\<forall>xs. mset (order' xs) = mset xs)"
  proof -
    define found where "found = remdups (filter (is_file (files st))
        (concat (map (\<lambda>ext. globber env dir ((if recursive then u ''**/*'' else u ''*'') @ ext))
           extensions)))"
    define fs1 where "fs1 = set_order env found"
    define fs2 where "fs2 = order' found"
    from perm have m: "mset fs1 = mset found" "mset fs2 = mset found"
      by (simp_all add: fs1_def fs2_def)
    then have sets: "set fs1 = set fs2" by (metis mset_eq_setD)
    from m have len: "length fs1 = length fs2" by (metis size_mset)
    then have nil: "fs1 = [] \<longleftrightarrow> fs2 = []" by auto
    have fw: "file_words ?env' = file_words env"
      by (intro ext) (simp add: file_words_def split: option.splits node.splits fdata.splits)
    have mk: "ensure_output_dir ?env' s d = ensure_output_dir env s d" for s d
      by (simp add: ensure_output_dir_def)
    have pd: "process_directory env st dir od recursive True =
       (if fs1 = [] then (Inr [], say (WarnNoFiles dir) st)
        else case ensure_output_dir env (say (Found (length fs1)) st) od of
               Inl e \<Rightarrow> (Inl e, say (Found (length fs1)) st)
             | Inr st2 \<Rightarrow> process_directory_merged env st2 dir fs1 od)"
      unfolding process_directory_def Let_def fs1_def found_def
      by (simp cong: sum.case_cong)
    have pd': "process_directory ?env' st dir od recursive True =
       (if fs2 = [] then (Inr [], say (WarnNoFiles dir) st)
        else case ensure_output_dir env (say (Found (length fs2)) st) od of
               Inl e \<Rightarrow> (Inl e, say (Found (length fs2)) st)
             | Inr st2 \<Rightarrow> process_directory_merged ?env' st2 dir fs2 od)"
      unfolding process_directory_def Let_def fs2_def found_def
      by (simp add: mk cong: sum.case_cong)
    have same: "fst (process_directory_merged env st2 dir fs1 od)
          = fst (process_directory_merged ?env' st2 dir fs2 od)
        \<and> files (snd (process_directory_merged env st2 dir fs1 od))
          = files (snd (process_directory_merged ?env' st2 dir fs2 od))" for st2
      by (rule process_directory_merged_same_words) (simp_all add: sets fw)
    show ?thesis
      unfolding pd pd' using nil len same by (simp split: sum.splits)
  qed
  from 1 2 show ?thesis by blast
qed

theorem merged_order_independent_witness:
  "fst (process_directory_merged example_env example_state (u ''in'') example_files (u ''raw''))
     = fst (process_directory_merged example_env example_state (u ''in'') (rev example_files)
             (u ''raw''))
   \<and> files (snd (process_directory_merged example_env example_state (u ''in'') example_files
                    (u ''raw'')))
     = files (snd (process_directory_merged example_env example_state (u ''in'')
                    (rev example_files) (u ''raw'')))
   \<and> fst (process_directory example_env example_state (u ''in'') (u ''raw'') False True)
     = fst (process_directory (example_env\<lparr>set_order := rev\<rparr>) example_state (u ''in'')
             (u ''raw'') False True)
   \<and> files (snd (process_directory example_env example_state (u ''in'') (u ''raw'') False True))
     = files (snd (process_directory (example_env\<lparr>set_order := rev\<rparr>) example_state
                    (u ''in'') (u ''raw'') False True))"
proof -
  have m: "mset example_files = mset (rev example_files)" by simp
  have p: "(\<forall>xs. mset (set_order example_env xs) = mset xs) \<and> (\<forall>xs. mset (rev xs) = mset xs)"
    by (simp add: example_env_def)
  from merged_order_independent
    [where tfs = example_files and tfs' = "rev example_files" and env = example_env
      and st = example_state and dir = "u ''in''" and od = "u ''raw''" and order' = rev
      and recursive = False]
    m p
  show ?thesis by blast
qed

end
